theory Spec2Isabelle
  imports Complex_Main "HOL-Library.Word"
begin

section \<open>Calmdog (src/main.cpp): noise detection and WAV playback on an ESP32\<close>

text \<open>
  The sketch is a single file: four globals for the detector and the player, the
  functions \<^verbatim>\<open>calibrarUmbral\<close>, \<^verbatim>\<open>reproducirAudio\<close>, \<^verbatim>\<open>setup\<close> and \<^verbatim>\<open>loop\<close>.
  Everything the functions touch besides the globals is a peripheral: the microphone
  (\<^verbatim>\<open>analogRead\<close>), the millisecond clock (\<^verbatim>\<open>millis\<close>), the SD card and the file
  \<^verbatim>\<open>/calm.wav\<close>, the DAC and the serial port. The peripherals' answers are inputs of
  the model (the record \<open>env\<close>); what the program writes to them is part of the state.
\<close>

subsection \<open>Machine types and constants\<close>

type_synonym u8 = "8 word"
type_synonym u16 = "16 word"
type_synonym u32 = "32 word"

text \<open>\<^verbatim>\<open>#define THRESHOLD_MULTIPLIER 2.5\<close>, a double. The products formed with it are
  multiples of one half below \<open>2^18\<close>, which a double holds exactly, so the real number is the
  value the program computes.\<close>

definition THRESHOLD_MULTIPLIER :: real where
  "THRESHOLD_MULTIPLIER = 5 / 2"

definition TRIGGER_DURATION :: u32 where
  "TRIGGER_DURATION = 2000"

definition PLAYBACK_DURATION :: u32 where
  "PLAYBACK_DURATION = 30000"

definition VOLUME_LEVEL :: int where
  "VOLUME_LEVEL = 180"

text \<open>C's integer division and the cast \<^verbatim>\<open>(int)\<close> of a double both truncate towards zero.\<close>

definition c_div :: "int \<Rightarrow> int \<Rightarrow> int" where
  "c_div a b = sgn a * sgn b * (\<bar>a\<bar> div \<bar>b\<bar>)"

definition c_trunc :: "real \<Rightarrow> int" where
  "c_trunc x = (if 0 \<le> x then \<lfloor>x\<rfloor> else \<lceil>x\<rceil>)"

text \<open>Arduino's \<^verbatim>\<open>long map(long x, long in_min, long in_max, long out_min, long out_max)\<close>.\<close>

definition map_long :: "int \<Rightarrow> int \<Rightarrow> int \<Rightarrow> int \<Rightarrow> int \<Rightarrow> int" where
  "map_long x in_min in_max out_min out_max =
     c_div ((x - in_min) * (out_max - out_min)) (in_max - in_min) + out_min"

subsection \<open>The serial log\<close>

text \<open>One constructor for each text the sketch prints, in the order of the source:
  \<^item> \<open>CalibrandoUmbral\<close>: "Calibrando umbral de ruido... manten silencio." (line 34)
  \<^item> \<open>UmbralCalibrado n\<close>: "Umbral calibrado: " followed by the number (lines 48, 49)
  \<^item> \<open>ErrorSD\<close>: "Error: No se pudo inicializar la tarjeta SD" (line 55)
  \<^item> \<open>ErrorNoCalm\<close>: "Error: No se encontro calm.wav" (line 61)
  \<^item> \<open>ErrorNoWav\<close>: "Error: Archivo no es WAV valido" (line 71)
  \<^item> \<open>ReproduciendoAudio\<close>: "Reproduciendo audio..." (line 76)
  \<^item> \<open>ReproduccionFinalizada\<close>: "Reproduccion finalizada." (line 104)
  \<^item> \<open>FalloMontarSD\<close>: "Fallo al montar SD. Verifica conexion." (line 114)
  \<^item> \<open>SDMontada\<close>: "SD montada correctamente." (line 118)
  \<^item> \<open>SistemaListo\<close>: "Sistema listo. Esperando ruido fuerte..." (line 123)
  \<^item> \<open>DetenidaPorTiempo\<close>: "Reproduccion detenida por tiempo maximo." (line 131)
  \<^item> \<open>RuidoDetectado\<close>: "!Ruido detectado! Activando musica relajante." (line 143)
\<close>

datatype log_line =
    CalibrandoUmbral
  | UmbralCalibrado int
  | ErrorSD
  | ErrorNoCalm
  | ErrorNoWav
  | ReproduciendoAudio
  | ReproduccionFinalizada
  | FalloMontarSD
  | SDMontada
  | SistemaListo
  | DetenidaPorTiempo
  | RuidoDetectado

subsection \<open>Environment and state\<close>

text \<open>
  The environment answers the calls the sketch makes to its peripherals:
  \<^item> \<open>mic k\<close> is the result of the \<open>k\<close>-th \<^verbatim>\<open>analogRead(PIN_MIC)\<close> since boot
    (\<^verbatim>\<open>uint16_t\<close> in the ESP32 core);
  \<^item> \<open>clock k\<close> is the time, in milliseconds since boot, at which the \<open>k\<close>-th call of
    \<^verbatim>\<open>millis()\<close> is made; the call returns it as an \<^verbatim>\<open>unsigned long\<close>, 32 bits wide,
    so it wraps around after \<open>2^32\<close> ms;
  \<^item> \<open>sd_ok k\<close> is the result of the \<open>k\<close>-th \<^verbatim>\<open>SD.begin(PIN_SD_CS)\<close>;
  \<^item> \<open>calm_wav\<close> is the content of \<^verbatim>\<open>/calm.wav\<close>, \<open>None\<close> when \<^verbatim>\<open>SD.open\<close> yields no file;
  \<^item> \<open>stack_garbage i\<close> is what byte \<open>i\<close> of the uninitialised array \<^verbatim>\<open>header\<close> holds
    before \<^verbatim>\<open>archivo.read\<close> fills it.
\<close>

record env =
  mic :: "nat \<Rightarrow> u16"
  clock :: "nat \<Rightarrow> nat"
  sd_ok :: "nat \<Rightarrow> bool"
  calm_wav :: "u8 list option"
  stack_garbage :: "nat \<Rightarrow> u8"

text \<open>
  The state holds the four globals of the sketch, then how many answers of each kind the
  program has consumed, then what it has done to the outside: the number of open file
  handles, the DAC (enabled or not, its present level, every level written to it, oldest
  first) and the lines printed on the serial port (oldest first).
\<close>

record state =
  umbralRuido :: int
  reproduciendo :: bool
  ultimoRuido :: u32
  inicioReproduccion :: u32
  mic_reads :: nat
  clock_reads :: nat
  sd_begins :: nat
  handles :: nat
  dac_enabled :: bool
  dac_level :: u8
  dac_writes :: "u8 list"
  serial :: "log_line list"

text \<open>The state at reset: the globals as initialised in lines 27 to 30; the level the DAC
  pin holds before the first write is a parameter.\<close>

definition boot :: "u8 \<Rightarrow> state" where
  "boot lvl =
     \<lparr>umbralRuido = 0, reproduciendo = False, ultimoRuido = 0, inicioReproduccion = 0,
      mic_reads = 0, clock_reads = 0, sd_begins = 0, handles = 0,
      dac_enabled = False, dac_level = lvl, dac_writes = [], serial = []\<rparr>"

subsection \<open>Peripheral calls\<close>

definition millis_of :: "nat \<Rightarrow> u32" where
  "millis_of t = of_nat t"

definition millis :: "env \<Rightarrow> state \<Rightarrow> u32 \<times> state" where
  "millis e s = (millis_of (clock e (clock_reads s)), s\<lparr>clock_reads := Suc (clock_reads s)\<rparr>)"

definition analogRead :: "env \<Rightarrow> state \<Rightarrow> u16 \<times> state" where
  "analogRead e s = (mic e (mic_reads s), s\<lparr>mic_reads := Suc (mic_reads s)\<rparr>)"

definition SD_begin :: "env \<Rightarrow> state \<Rightarrow> bool \<times> state" where
  "SD_begin e s = (sd_ok e (sd_begins s), s\<lparr>sd_begins := Suc (sd_begins s)\<rparr>)"

definition println :: "log_line \<Rightarrow> state \<Rightarrow> state" where
  "println l s = s\<lparr>serial := serial s @ [l]\<rparr>"

definition dac_output_enable :: "state \<Rightarrow> state" where
  "dac_output_enable s = s\<lparr>dac_enabled := True\<rparr>"

definition dac_output_voltage :: "u8 \<Rightarrow> state \<Rightarrow> state" where
  "dac_output_voltage v s = s\<lparr>dac_level := v, dac_writes := dac_writes s @ [v]\<rparr>"

definition file_open :: "state \<Rightarrow> state" where
  "file_open s = s\<lparr>handles := Suc (handles s)\<rparr>"

definition file_close :: "state \<Rightarrow> state" where
  "file_close s = s\<lparr>handles := handles s - 1\<rparr>"

text \<open>\<^verbatim>\<open>delay\<close> and \<^verbatim>\<open>delayMicroseconds\<close> only let time pass. The program sees time through
  \<^verbatim>\<open>millis()\<close> alone, whose readings the environment gives, so a delay leaves the state as
  it is.\<close>

definition delay :: "nat \<Rightarrow> state \<Rightarrow> state" where
  "delay ms s = s"

definition delayMicroseconds :: "nat \<Rightarrow> state \<Rightarrow> state" where
  "delayMicroseconds us s = s"

subsection \<open>\<^verbatim>\<open>calibrarUmbral\<close> (lines 33 to 50)\<close>

text \<open>The \<^verbatim>\<open>for\<close> loop of lines 40 to 43, by the number of iterations still to run. The sum
  is a \<^verbatim>\<open>long\<close>; a hundred 16-bit readings stay below \<open>2^23\<close>, so it never overflows.\<close>

fun calib_loop :: "env \<Rightarrow> nat \<Rightarrow> int \<Rightarrow> state \<Rightarrow> int \<times> state" where
  "calib_loop e 0 suma s = (suma, s)"
| "calib_loop e (Suc n) suma s =
     (let (v, s1) = analogRead e s
      in calib_loop e n (suma + uint v) (delay 10 s1))"

definition calibrarUmbral :: "env \<Rightarrow> state \<Rightarrow> state" where
  "calibrarUmbral e s =
     (let s0 = delay 1000 (println CalibrandoUmbral s);
          muestras = 100;
          (suma, s1) = calib_loop e muestras 0 s0;
          promedio = c_div suma (int muestras);
          s2 = s1\<lparr>umbralRuido := c_trunc (of_int promedio * THRESHOLD_MULTIPLIER)\<rparr>
      in println (UmbralCalibrado (umbralRuido s2)) s2)"

text \<open>The hundred readings a calibration started in state \<open>s\<close> takes, and their mean.\<close>

definition baseline :: "env \<Rightarrow> state \<Rightarrow> int list" where
  "baseline e s = map (\<lambda>k. uint (mic e (mic_reads s + k))) [0..<100]"

definition mean :: "int list \<Rightarrow> real" where
  "mean xs = of_int (sum_list xs) / of_nat (length xs)"

subsection \<open>\<^verbatim>\<open>reproducirAudio\<close> (lines 53 to 105)\<close>

text \<open>
  The function returns \<^verbatim>\<open>void\<close>. The model returns, next to the state, the way by which
  the call left the function:
  \<^item> \<open>AssetError StorageUnavailable\<close>: the \<^verbatim>\<open>return\<close> of line 56;
  \<^item> \<open>AssetError NotFound\<close>: the \<^verbatim>\<open>return\<close> of line 62;
  \<^item> \<open>AssetError InvalidFormat\<close>: the \<^verbatim>\<open>return\<close> of line 73;
  \<^item> \<open>MaxDurationExceeded\<close>: the \<^verbatim>\<open>while\<close> loop was left by the \<^verbatim>\<open>break\<close> of line 94;
  \<^item> \<open>Completed\<close>: the \<^verbatim>\<open>while\<close> loop was left because its condition failed.
\<close>

datatype AssetErrorKind = StorageUnavailable | NotFound | InvalidFormat

datatype PlaybackResult = Completed | MaxDurationExceeded | AssetError AssetErrorKind

text \<open>The \<^verbatim>\<open>for\<close> loop of lines 87 to 90 over the bytes read into \<^verbatim>\<open>buffer\<close>.\<close>

fun output_chunk :: "u8 list \<Rightarrow> state \<Rightarrow> state" where
  "output_chunk [] s = s"
| "output_chunk (b # bs) s =
     output_chunk bs
       (delayMicroseconds 125
          (dac_output_voltage (word_of_int (map_long (uint b) 0 255 0 VOLUME_LEVEL)) s))"

text \<open>The \<^verbatim>\<open>while\<close> loop of lines 86 to 99. \<open>rest\<close> is what of the file lies behind the read
  position; \<^verbatim>\<open>archivo.read(buffer, 512)\<close> takes up to 512 bytes of it and returns their
  number.\<close>

function play_loop :: "env \<Rightarrow> u8 list \<Rightarrow> state \<Rightarrow> PlaybackResult \<times> state" where
  "play_loop e rest s =
     (let buffer = take 512 rest;
          leidos = int (length buffer)
      in if leidos > 0 \<and> reproduciendo s then
           (let s1 = output_chunk buffer s;
                (now, s2) = millis e s1
            in if now - inicioReproduccion s2 > PLAYBACK_DURATION
               then (MaxDurationExceeded, s2)
               else play_loop e (drop 512 rest) s2)
         else (Completed, s))"
  by pat_completeness auto
termination
  by (relation "measure (\<lambda>(e, rest, s). length rest)") auto

text \<open>The equation of \<open>play_loop\<close> rewrites its own right-hand side; it is used by hand.\<close>

declare play_loop.simps [simp del]

text \<open>The 44 bytes of \<^verbatim>\<open>header\<close> after \<^verbatim>\<open>archivo.read(header, 44)\<close>: the bytes the file has,
  and behind them what the array held before.\<close>

definition read_header :: "env \<Rightarrow> u8 list \<Rightarrow> nat \<Rightarrow> u8" where
  "read_header e contents i = (if i < length (take 44 contents) then contents ! i else stack_garbage e i)"

definition byte_of :: "char \<Rightarrow> u8" where
  "byte_of c = of_char c"

definition reproducirAudio :: "env \<Rightarrow> state \<Rightarrow> PlaybackResult \<times> state" where
  "reproducirAudio e s =
     (let (ok, s1) = SD_begin e s
      in if \<not> ok then (AssetError StorageUnavailable, println ErrorSD s1)
         else
           (case calm_wav e of
              None \<Rightarrow> (AssetError NotFound, println ErrorNoCalm s1)
            | Some contents \<Rightarrow>
                (let s2 = file_open s1;
                     header = read_header e contents
                 in if header 0 \<noteq> byte_of CHR ''R'' \<or> header 1 \<noteq> byte_of CHR ''I''
                       \<or> header 2 \<noteq> byte_of CHR ''F'' \<or> header 3 \<noteq> byte_of CHR ''F''
                    then (AssetError InvalidFormat, file_close (println ErrorNoWav s2))
                    else
                      (let s3 = println ReproduciendoAudio s2;
                           s4 = dac_output_enable s3;
                           s5 = s4\<lparr>reproduciendo := True\<rparr>;
                           (now, s6) = millis e s5;
                           s7 = s6\<lparr>inicioReproduccion := now\<rparr>;
                           (r, s8) = play_loop e (drop 44 contents) s7;
                           s9 = file_close s8;
                           s10 = dac_output_voltage 0 s9;
                           s11 = s10\<lparr>reproduciendo := False\<rparr>
                       in (r, println ReproduccionFinalizada s11)))))"

subsection \<open>\<^verbatim>\<open>setup\<close> (lines 107 to 124)\<close>

text \<open>The function \<^verbatim>\<open>setup\<close> of the sketch (the name is taken in Isabelle). When the
  card does not mount, it prints a line and stays in \<^verbatim>\<open>while (1) delay(1000)\<close> for ever:
  the result \<open>Halted\<close>, with the state in which it stays. \<^verbatim>\<open>Serial.begin\<close> and \<^verbatim>\<open>pinMode\<close>
  change nothing the model holds.\<close>

datatype boot_result = Halted state | Ready state

definition setup_sketch :: "env \<Rightarrow> state \<Rightarrow> boot_result" where
  "setup_sketch e s =
     (let s1 = dac_output_enable s;
          (ok, s2) = SD_begin e s1
      in if \<not> ok then Halted (println FalloMontarSD s2)
         else Ready (println SistemaListo (calibrarUmbral e (println SDMontada s2))))"

subsection \<open>\<^verbatim>\<open>loop\<close> (lines 126 to 152)\<close>

definition loop :: "env \<Rightarrow> state \<Rightarrow> state" where
  "loop e s =
     (if reproduciendo s then
        (let (now, s1) = millis e s
         in if now - inicioReproduccion s1 > PLAYBACK_DURATION
            then println DetenidaPorTiempo (s1\<lparr>reproduciendo := False\<rparr>)
            else s1)
      else
        (let (v, s1) = analogRead e s;
             nivelSonido = uint v;
             s2 = (if nivelSonido > umbralRuido s1 then
                     (if ultimoRuido s1 = 0 then
                        (let (now, s') = millis e s1 in s'\<lparr>ultimoRuido := now\<rparr>)
                      else
                        (let (now, s') = millis e s1
                         in if now - ultimoRuido s' > TRIGGER_DURATION then
                              (let s'' = println RuidoDetectado s';
                                   (r, s''') = reproducirAudio e s''
                               in s'''\<lparr>ultimoRuido := 0\<rparr>)
                            else s'))
                   else s1\<lparr>ultimoRuido := 0\<rparr>)
         in delay 10 s2))"

text \<open>The states the sketch can be in at the start of an iteration of \<^verbatim>\<open>loop\<close>: the one
  \<^verbatim>\<open>setup\<close> returns, and the one each iteration leaves.\<close>

inductive reachable :: "env \<Rightarrow> state \<Rightarrow> bool" for e :: env where
  after_setup: "setup_sketch e (boot lvl) = Ready s \<Longrightarrow> reachable e s"
| after_loop: "reachable e s \<Longrightarrow> reachable e (loop e s)"

subsection \<open>The noise detector (lines 138 to 149)\<close>

text \<open>
  What one iteration of \<^verbatim>\<open>loop\<close> does with the level it has read and the time it reads,
  as a function of the threshold and of \<^verbatim>\<open>ultimoRuido\<close>: the event is \<open>Triggered\<close> when the
  iteration calls \<^verbatim>\<open>reproducirAudio\<close>, and the second component is the new value of
  \<^verbatim>\<open>ultimoRuido\<close>, where 0 stands for "no noise running".
\<close>

datatype DetectionEvent = NoEvent | Triggered

definition observe :: "int \<Rightarrow> u32 \<Rightarrow> int \<Rightarrow> u32 \<Rightarrow> DetectionEvent \<times> u32" where
  "observe umbral ultimo nivelSonido now =
     (if nivelSonido > umbral then
        (if ultimo = 0 then (NoEvent, now)
         else if now - ultimo > TRIGGER_DURATION then (Triggered, 0)
         else (NoEvent, ultimo))
      else (NoEvent, 0))"

text \<open>An observation is a level and the time in milliseconds at which the iteration calls
  \<^verbatim>\<open>millis()\<close>. \<open>detect\<close> feeds a list of them to the detector and gives, for each, the event
  and the value of \<^verbatim>\<open>ultimoRuido\<close> after it; \<open>final\<close> is \<^verbatim>\<open>ultimoRuido\<close> after the last.\<close>

type_synonym observation = "int \<times> nat"

fun detect :: "int \<Rightarrow> u32 \<Rightarrow> observation list \<Rightarrow> (DetectionEvent \<times> u32) list" where
  "detect umbral ultimo [] = []"
| "detect umbral ultimo ((nivel, t) # obs) =
     (let r = observe umbral ultimo nivel (millis_of t)
      in r # detect umbral (snd r) obs)"

fun final :: "int \<Rightarrow> u32 \<Rightarrow> observation list \<Rightarrow> u32" where
  "final umbral ultimo [] = ultimo"
| "final umbral ultimo ((nivel, t) # obs) =
     final umbral (snd (observe umbral ultimo nivel (millis_of t))) obs"

definition triggers :: "(DetectionEvent \<times> u32) list \<Rightarrow> nat" where
  "triggers tr = length (filter (\<lambda>r. fst r = Triggered) tr)"

definition run_span :: "observation list \<Rightarrow> nat" where
  "run_span obs = snd (last obs) - snd (hd obs)"

text \<open>A run of observations all above the threshold, and a run whose times lie between
  two bounds.\<close>

definition all_above :: "int \<Rightarrow> observation list \<Rightarrow> bool" where
  "all_above umbral obs = (\<forall>x \<in> set obs. umbral < fst x)"

definition in_window :: "nat \<Rightarrow> nat \<Rightarrow> observation list \<Rightarrow> bool" where
  "in_window lo hi obs = (\<forall>x \<in> set obs. lo \<le> snd x \<and> snd x \<le> hi)"

text \<open>What \<^verbatim>\<open>loop\<close> does in \<open>n\<close> iterations, and the observations these iterations make:
  the level each reads and the time at which its call of \<^verbatim>\<open>millis()\<close> falls.\<close>

fun loops :: "env \<Rightarrow> nat \<Rightarrow> state \<Rightarrow> state" where
  "loops e 0 s = s"
| "loops e (Suc n) s = loops e n (loop e s)"

fun run_obs :: "env \<Rightarrow> nat \<Rightarrow> state \<Rightarrow> observation list" where
  "run_obs e 0 s = []"
| "run_obs e (Suc n) s =
     (uint (mic e (mic_reads s)), clock e (clock_reads s)) # run_obs e n (loop e s)"

subsection \<open>Notions for the player\<close>

text \<open>The four bytes line 70 asks for, the test of line 70 as a predicate, the number of
  \<^verbatim>\<open>archivo.read(buffer, 512)\<close> calls that return data, and the state in which line 86 is
  reached from a call in state \<open>s\<close>.\<close>

definition RIFF :: "u8 list" where
  "RIFF = map byte_of ''RIFF''"

definition magic_ok :: "env \<Rightarrow> u8 list \<Rightarrow> bool" where
  "magic_ok e contents =
     (read_header e contents 0 = byte_of CHR ''R'' \<and> read_header e contents 1 = byte_of CHR ''I''
      \<and> read_header e contents 2 = byte_of CHR ''F'' \<and> read_header e contents 3 = byte_of CHR ''F'')"

definition nchunks :: "u8 list \<Rightarrow> nat" where
  "nchunks rest = (length rest + 511) div 512"

definition play_start :: "env \<Rightarrow> state \<Rightarrow> state" where
  "play_start e s =
     s\<lparr>sd_begins := Suc (sd_begins s), handles := Suc (handles s),
       serial := serial s @ [ReproduciendoAudio], dac_enabled := True, reproduciendo := True,
       clock_reads := Suc (clock_reads s),
       inicioReproduccion := millis_of (clock e (clock_reads s))\<rparr>"

text \<open>The level line 88 writes for a byte of the file; the test of line 93 at the check
  behind chunk \<open>k\<close> of a call that found \<^verbatim>\<open>millis()\<close> read \<open>c\<close> times; and the state a call in
  state \<open>s\<close> leaves when it has played \<open>j\<close> chunks of the data: the levels of the first
  \<open>512 * j\<close> bytes written to the DAC and then 0, \<^verbatim>\<open>millis()\<close> read once at the start and
  once behind each chunk, the two lines of lines 76 and 104 printed, the DAC enabled,
  \<^verbatim>\<open>reproduciendo\<close> false, and as many handles open as before.\<close>

definition dac_sample :: "u8 \<Rightarrow> u8" where
  "dac_sample b = word_of_int (map_long (uint b) 0 255 0 VOLUME_LEVEL)"

definition cap_exceeded :: "env \<Rightarrow> nat \<Rightarrow> nat \<Rightarrow> bool" where
  "cap_exceeded e c k =
     (PLAYBACK_DURATION < millis_of (clock e (c + k)) - millis_of (clock e c))"

definition after_playing :: "env \<Rightarrow> state \<Rightarrow> nat \<Rightarrow> u8 list \<Rightarrow> state" where
  "after_playing e s j data =
     s\<lparr>sd_begins := Suc (sd_begins s), dac_enabled := True, reproduciendo := False,
       inicioReproduccion := millis_of (clock e (clock_reads s)),
       clock_reads := clock_reads s + Suc j, dac_level := 0,
       dac_writes := dac_writes s @ map dac_sample (take (512 * j) data) @ [0],
       serial := serial s @ [ReproduciendoAudio, ReproduccionFinalizada]\<rparr>"

subsection \<open>Concrete inputs\<close>

text \<open>A room in which the first reading is 1 and every later one 2: the hundred readings of
  the calibration add up to 199.\<close>

definition quiet_room :: env where
  "quiet_room = \<lparr>mic = (\<lambda>k. if k = 0 then 1 else 2), clock = (\<lambda>k. 1000 + 10 * k),
     sd_ok = (\<lambda>k. True), calm_wav = None, stack_garbage = (\<lambda>i. 0)\<rparr>"

text \<open>A microphone that reads 0 every time.\<close>

definition dead_mic :: env where
  "dead_mic = \<lparr>mic = (\<lambda>k. 0), clock = (\<lambda>k. 1000 + 10 * k),
     sd_ok = (\<lambda>k. True), calm_wav = None, stack_garbage = (\<lambda>i. 0)\<rparr>"

text \<open>Runs of loud observations (level 500, against a threshold of 100) of 1900 ms, 2100 ms
  and 4012 ms, and a run of 1000 ms, one quiet sample and a run of 1500 ms.\<close>

definition burst_1900 :: "observation list" where
  "burst_1900 = [(500, 3000), (500, 3950), (500, 4900)]"

definition burst_2100 :: "observation list" where
  "burst_2100 = [(500, 3000), (500, 4000), (500, 5100)]"

definition burst_4012 :: "observation list" where
  "burst_4012 = [(500, 5000), (500, 7001), (500, 7011), (500, 9012)]"

definition burst_1000 :: "observation list" where
  "burst_1000 = [(500, 3000), (500, 3500), (500, 4000)]"

definition burst_1500 :: "observation list" where
  "burst_1500 = [(500, 4020), (500, 5000), (500, 5520)]"

text \<open>Files: a header of 44 bytes that starts with "RIFF", followed by 245760 samples
  (480 chunks) or by 1024 samples (2 chunks); a file that starts with "RIFX". The clock
  gives each chunk 64 ms, as 512 samples at 125 microseconds take.\<close>

definition wav_header :: "u8 list" where
  "wav_header = RIFF @ replicate 40 0"

definition long_wav :: env where
  "long_wav = \<lparr>mic = (\<lambda>k. 10), clock = (\<lambda>k. 5000 + 64 * k), sd_ok = (\<lambda>k. True),
     calm_wav = Some (wav_header @ replicate 245760 128), stack_garbage = (\<lambda>i. 0)\<rparr>"

definition short_wav :: env where
  "short_wav = \<lparr>mic = (\<lambda>k. 10), clock = (\<lambda>k. 5000 + 64 * k), sd_ok = (\<lambda>k. True),
     calm_wav = Some (wav_header @ replicate 1024 128), stack_garbage = (\<lambda>i. 0)\<rparr>"

definition bad_wav :: env where
  "bad_wav = \<lparr>mic = (\<lambda>k. 10), clock = (\<lambda>k. 5000 + 64 * k), sd_ok = (\<lambda>k. True),
     calm_wav = Some (map byte_of ''RIFX'' @ replicate 1064 128), stack_garbage = (\<lambda>i. 0)\<rparr>"

text \<open>A file of 469 chunks, played at 64 ms a chunk (30016 ms in all) and at 63 ms a chunk
  (29547 ms in all); and a file of the two bytes "RI", read into an array \<^verbatim>\<open>header\<close> that
  holds the byte "F" everywhere before the read.\<close>

definition cap_wav :: env where
  "cap_wav = \<lparr>mic = (\<lambda>k. 10), clock = (\<lambda>k. 5000 + 64 * k), sd_ok = (\<lambda>k. True),
     calm_wav = Some (wav_header @ replicate 240128 128), stack_garbage = (\<lambda>i. 0)\<rparr>"

definition end_wav :: env where
  "end_wav = \<lparr>mic = (\<lambda>k. 10), clock = (\<lambda>k. 5000 + 63 * k), sd_ok = (\<lambda>k. True),
     calm_wav = Some (wav_header @ replicate 240128 128), stack_garbage = (\<lambda>i. 0)\<rparr>"

definition stub_wav :: env where
  "stub_wav = \<lparr>mic = (\<lambda>k. 10), clock = (\<lambda>k. 5000 + 64 * k), sd_ok = (\<lambda>k. True),
     calm_wav = Some (map byte_of ''RI''), stack_garbage = (\<lambda>i. byte_of CHR ''F'')\<rparr>"

text \<open>A card that mounts at boot and not afterwards, in a room that is quiet (level 10)
  during the calibration and loud (level 4000) from then on, with 2500 ms between two
  readings of the clock; and the state in which the first iteration of \<^verbatim>\<open>loop\<close> starts
  there, when the DAC pin is at level 180 at reset.\<close>

definition card_pulled :: env where
  "card_pulled = \<lparr>mic = (\<lambda>k. if k < 100 then 10 else 4000), clock = (\<lambda>k. 5000 + 2500 * k),
     sd_ok = (\<lambda>k. k = 0), calm_wav = None, stack_garbage = (\<lambda>i. 0)\<rparr>"

definition ready :: state where
  "ready = (case setup_sketch card_pulled (boot 180) of Ready s \<Rightarrow> s | Halted s \<Rightarrow> s)"

section \<open>Calibration\<close>

lemma calib_loop_sum:
  "calib_loop e n suma s =
     (suma + (\<Sum>k<n. uint (mic e (mic_reads s + k))), s\<lparr>mic_reads := mic_reads s + n\<rparr>)"
proof (induction n arbitrary: suma s)
  case 0
  show ?case by simp
next
  case (Suc n)
  have shift: "(\<Sum>k<Suc n. uint (mic e (mic_reads s + k))) =
        uint (mic e (mic_reads s)) + (\<Sum>k<n. uint (mic e (Suc (mic_reads s) + k)))"
    by (simp add: sum.lessThan_Suc_shift del: sum.lessThan_Suc)
  show ?case
    by (simp add: Suc.IH analogRead_def delay_def shift del: sum.lessThan_Suc)
qed

lemma sum_list_baseline:
  "sum_list (baseline e s) = (\<Sum>k<100. uint (mic e (mic_reads s + k)))"
  by (simp add: baseline_def sum_list_sum_nth atLeast0LessThan del: sum.lessThan_Suc)

lemma length_baseline: "length (baseline e s) = 100"
  by (simp add: baseline_def)

lemma baseline_nonneg: "0 \<le> sum_list (baseline e s)"
  unfolding baseline_def by (rule sum_list_nonneg) auto

lemma baseline_println [simp]: "baseline e (println l s) = baseline e s"
  by (simp add: baseline_def println_def)

lemma umbral_calibrarUmbral:
  "umbralRuido (calibrarUmbral e s) =
     c_trunc (of_int (c_div (sum_list (baseline e s)) 100) * THRESHOLD_MULTIPLIER)"
  by (simp add: calibrarUmbral_def calib_loop_sum sum_list_baseline println_def delay_def
        Let_def del: sum.lessThan_Suc)

lemma c_div_nonneg: "0 \<le> a \<Longrightarrow> 0 < b \<Longrightarrow> c_div a b = a div b"
  by (cases "a = 0") (simp_all add: c_div_def)

lemma c_trunc_multiplier:
  assumes "0 \<le> p"
  shows "c_trunc (of_int p * THRESHOLD_MULTIPLIER) = (5 * p) div 2"
proof -
  have eq: "(of_int p * THRESHOLD_MULTIPLIER :: real) = of_int (5 * p) / of_int 2"
    by (simp add: THRESHOLD_MULTIPLIER_def)
  have "0 \<le> (of_int (5 * p) / of_int 2 :: real)"
    using assms by simp
  then have "c_trunc (of_int (5 * p) / of_int 2) = \<lfloor>of_int (5 * p) / of_int 2 :: real\<rfloor>"
    unfolding c_trunc_def by (rule if_P)
  also have "\<dots> = (5 * p) div 2"
    by (rule floor_divide_of_int_eq)
  finally show ?thesis
    unfolding eq .
qed

lemma umbral_closed:
  "umbralRuido (calibrarUmbral e s) = (5 * (sum_list (baseline e s) div 100)) div 2"
proof -
  let ?S = "sum_list (baseline e s)"
  have d: "c_div ?S 100 = ?S div 100"
    by (rule c_div_nonneg) (simp_all add: baseline_nonneg)
  have nn: "0 \<le> ?S div 100"
    using baseline_nonneg [of e s] by (simp add: pos_imp_zdiv_nonneg_iff)
  show ?thesis
    unfolding umbral_calibrarUmbral d by (rule c_trunc_multiplier [OF nn])
qed

lemma mean_floor: "\<lfloor>mean (baseline e s)\<rfloor> = sum_list (baseline e s) div 100"
proof -
  have "mean (baseline e s) = of_int (sum_list (baseline e s)) / of_int 100"
    by (simp add: mean_def length_baseline)
  then show ?thesis
    by (simp only: floor_divide_of_int_eq)
qed

lemma sum_quiet: "sum_list (baseline quiet_room (boot 0)) = 199"
  by (simp add: baseline_def quiet_room_def boot_def upt_rec [of _ "numeral n" for n])

lemma sum_dead: "sum_list (baseline dead_mic (boot 0)) = 0"
  by (simp add: baseline_def dead_mic_def)

text \<open>
  C2. The claim: with \<open>m\<close> the mean of the hundred readings, the threshold is \<open>m * 2.5\<close>
  rounded. The code divides the sum by 100 in integers (line 45) and casts the product to
  \<^verbatim>\<open>int\<close> (line 46): the threshold is the mean rounded down, times 2.5, rounded down.
\<close>

theorem calibrate_truncates:
  "umbralRuido (calibrarUmbral e s) =
     \<lfloor>of_int \<lfloor>mean (baseline e s)\<rfloor> * THRESHOLD_MULTIPLIER\<rfloor>"
proof -
  have nn: "0 \<le> sum_list (baseline e s) div 100"
    using baseline_nonneg [of e s] by (simp add: pos_imp_zdiv_nonneg_iff)
  have "\<lfloor>of_int (sum_list (baseline e s) div 100) * THRESHOLD_MULTIPLIER\<rfloor>
        = c_trunc (of_int (sum_list (baseline e s) div 100) * THRESHOLD_MULTIPLIER)"
    using nn by (simp add: c_trunc_def THRESHOLD_MULTIPLIER_def)
  then show ?thesis
    by (simp only: mean_floor umbral_closed c_trunc_multiplier [OF nn])
qed

text \<open>With readings that add up to 199 the mean is 1.99 and \<open>1.99 * 2.5 = 4.975\<close>, which
  rounds to 5 (and down to 4); the code sets the threshold to 2.\<close>

theorem calibrate_round_counterexample:
  "mean (baseline quiet_room (boot 0)) = 199 / 100
   \<and> round (mean (baseline quiet_room (boot 0)) * THRESHOLD_MULTIPLIER) = 5
   \<and> \<lfloor>mean (baseline quiet_room (boot 0)) * THRESHOLD_MULTIPLIER\<rfloor> = 4
   \<and> umbralRuido (calibrarUmbral quiet_room (boot 0)) = 2"
  by (simp add: umbral_closed mean_def sum_quiet length_baseline round_def
        THRESHOLD_MULTIPLIER_def)

text \<open>
  C6. The claim: after the calibration the threshold is greater than zero, whatever the
  hundred readings. The code has no guard: the threshold is never negative, and it is
  greater than zero exactly when the readings add up to at least 100.
\<close>

theorem threshold_positive_iff:
  "0 \<le> umbralRuido (calibrarUmbral e s)
   \<and> (0 < umbralRuido (calibrarUmbral e s)) = (100 \<le> sum_list (baseline e s))"
proof -
  let ?p = "sum_list (baseline e s) div 100"
  have nn: "0 \<le> ?p"
    using baseline_nonneg [of e s] by (simp add: pos_imp_zdiv_nonneg_iff)
  have "(0 < (5 * ?p) div 2) = (0 < ?p)"
    using nn by arith
  moreover have "(0 < ?p) = (100 \<le> sum_list (baseline e s))"
    by arith
  moreover have "0 \<le> (5 * ?p) div 2"
    using nn by arith
  ultimately show ?thesis
    by (simp only: umbral_closed)
qed

text \<open>A microphone that reads 0 a hundred times leaves the threshold at 0.\<close>

theorem threshold_zero_counterexample:
  "baseline dead_mic (boot 0) = replicate 100 0
   \<and> umbralRuido (calibrarUmbral dead_mic (boot 0)) = 0"
  by (simp add: umbral_closed sum_dead) (simp add: baseline_def dead_mic_def map_replicate_const)

section \<open>The noise detector\<close>

lemma millis_diff:
  assumes "t0 \<le> t" "t - t0 < 2 ^ 32"
  shows "(TRIGGER_DURATION < millis_of t - millis_of t0) = (2000 < t - t0)"
proof -
  have "millis_of t - millis_of t0 = (of_nat (t - t0) :: u32)"
    using assms(1) by (simp add: millis_of_def)
  moreover have "unat (of_nat (t - t0) :: u32) = t - t0"
    using assms(2) by (simp add: unat_of_nat)
  ultimately show ?thesis
    by (simp add: TRIGGER_DURATION_def word_less_nat_alt)
qed

lemma triggers_Cons: "triggers (r # tr) = (if fst r = Triggered then 1 else 0) + triggers tr"
  by (simp add: triggers_def)

lemma triggers_Nil: "triggers [] = 0"
  by (simp add: triggers_def)

lemma quiet_window:
  assumes "all_above umbral obs" "sorted (map snd obs)" "in_window lo hi obs" "hi - lo \<le> 2000"
    and "ultimo = 0 \<or> (\<exists>t0. ultimo = millis_of t0 \<and> lo \<le> t0 \<and> (\<forall>x \<in> set obs. t0 \<le> snd x))"
  shows "triggers (detect umbral ultimo obs) = 0"
  using assms
proof (induction obs arbitrary: ultimo)
  case Nil
  show ?case by (simp add: triggers_Nil)
next
  case (Cons x obs)
  obtain v t where x: "x = (v, t)" by (cases x)
  have v: "umbral < v" and ab: "all_above umbral obs"
    using Cons.prems(1) by (simp_all add: all_above_def x)
  have so: "sorted (map snd obs)" and le: "\<forall>y \<in> set obs. t \<le> snd y"
    using Cons.prems(2) by (auto simp: x)
  have t: "lo \<le> t" "t \<le> hi" and wi: "in_window lo hi obs"
    using Cons.prems(3) by (simp_all add: in_window_def x)
  show ?case
  proof (cases "ultimo = 0")
    case True
    have "triggers (detect umbral (millis_of t) obs) = 0"
      by (rule Cons.IH [OF ab so wi Cons.prems(4)]) (use t le in blast)
    then show ?thesis
      by (simp add: x observe_def v True triggers_Cons)
  next
    case False
    then obtain t0 where t0: "ultimo = millis_of t0" "lo \<le> t0" "t0 \<le> t" "\<forall>y \<in> set obs. t0 \<le> snd y"
      using Cons.prems(5) by (auto simp: x)
    have "t - t0 \<le> 2000"
      using t t0 Cons.prems(4) by linarith
    then have no: "\<not> TRIGGER_DURATION < millis_of t - millis_of t0"
      using millis_diff [of t0 t] t0(3) by simp
    have "triggers (detect umbral ultimo obs) = 0"
      by (rule Cons.IH [OF ab so wi Cons.prems(4)]) (use t0 in blast)
    then show ?thesis
      using False no by (simp add: x observe_def v t0(1) triggers_Cons)
  qed
qed

lemma sorted_window:
  assumes "obs \<noteq> []" "sorted (map snd obs)"
  shows "in_window (snd (hd obs)) (snd (last obs)) obs"
proof -
  have lo: "snd (hd obs) \<le> snd x" if "x \<in> set obs" for x
  proof -
    obtain y ys where obs: "obs = y # ys" using assms(1) by (cases obs) auto
    show ?thesis using that assms(2) by (auto simp: obs)
  qed
  have hi: "snd x \<le> snd (last obs)" if "x \<in> set obs" for x
  proof -
    obtain ys y where obs: "obs = ys @ [y]" using assms(1) by (cases obs rule: rev_cases) auto
    show ?thesis using that assms(2) by (auto simp: obs sorted_append)
  qed
  show ?thesis
    unfolding in_window_def using lo hi by blast
qed

lemma short_run_silent:
  assumes "obs \<noteq> []" "all_above umbral obs" "sorted (map snd obs)" "run_span obs \<le> 2000"
  shows "triggers (detect umbral 0 obs) = 0"
proof (rule quiet_window [OF assms(2,3) sorted_window [OF assms(1,3)]])
  show "snd (last obs) - snd (hd obs) \<le> 2000"
    using assms(4) by (simp add: run_span_def)
qed simp

lemma armed_once:
  assumes "all_above umbral obs" "sorted (map snd obs)" "in_window t0 (t0 + 4001) obs"
    and "millis_of t0 \<noteq> 0"
  shows "triggers (detect umbral (millis_of t0) obs) =
           (if \<exists>x \<in> set obs. 2000 < snd x - t0 then 1 else 0)"
  using assms(1-3)
proof (induction obs)
  case Nil
  show ?case by (simp add: triggers_Nil)
next
  case (Cons x obs)
  obtain v t where x: "x = (v, t)" by (cases x)
  have v: "umbral < v" and ab: "all_above umbral obs"
    using Cons.prems(1) by (simp_all add: all_above_def x)
  have so: "sorted (map snd obs)" and le: "\<forall>y \<in> set obs. t \<le> snd y"
    using Cons.prems(2) by (auto simp: x)
  have t: "t0 \<le> t" "t \<le> t0 + 4001" and wi: "in_window t0 (t0 + 4001) obs"
    using Cons.prems(3) by (simp_all add: in_window_def x)
  have cmp: "(TRIGGER_DURATION < millis_of t - millis_of t0) = (2000 < t - t0)"
    by (rule millis_diff) (use t in simp_all)
  show ?case
  proof (cases "2000 < t - t0")
    case True
    have "in_window t (t0 + 4001) obs"
      using wi le by (simp add: in_window_def)
    moreover have "t0 + 4001 - t \<le> 2000"
      using True by simp
    ultimately have "triggers (detect umbral 0 obs) = 0"
      using ab so by (intro quiet_window [where lo = t and hi = "t0 + 4001"]) simp_all
    then show ?thesis
      using True cmp assms(4) by (simp add: x observe_def v triggers_Cons)
  next
    case False
    have "triggers (detect umbral (millis_of t0) obs) =
            (if \<exists>x \<in> set obs. 2000 < snd x - t0 then 1 else 0)"
      by (rule Cons.IH [OF ab so wi])
    then show ?thesis
      using False cmp assms(4) by (simp add: x observe_def v triggers_Cons)
  qed
qed

lemma armed_fires:
  assumes "all_above umbral obs" "\<forall>x \<in> set obs. t0 \<le> snd x \<and> snd x - t0 < 2 ^ 32"
    and "millis_of t0 \<noteq> 0" "\<exists>x \<in> set obs. 2000 < snd x - t0"
  shows "1 \<le> triggers (detect umbral (millis_of t0) obs)"
  using assms(1,2,4)
proof (induction obs)
  case Nil
  then show ?case by simp
next
  case (Cons x obs)
  obtain v t where x: "x = (v, t)" by (cases x)
  have v: "umbral < v" and ab: "all_above umbral obs"
    using Cons.prems(1) by (simp_all add: all_above_def x)
  have t: "t0 \<le> t" "t - t0 < 2 ^ 32" and wi: "\<forall>x \<in> set obs. t0 \<le> snd x \<and> snd x - t0 < 2 ^ 32"
    using Cons.prems(2) by (simp_all add: x)
  have cmp: "(TRIGGER_DURATION < millis_of t - millis_of t0) = (2000 < t - t0)"
    by (rule millis_diff) (use t in simp_all)
  show ?case
  proof (cases "2000 < t - t0")
    case True
    then show ?thesis
      using cmp assms(3) by (simp add: x observe_def v triggers_Cons)
  next
    case False
    then have "\<exists>x \<in> set obs. 2000 < snd x - t0"
      using Cons.prems(3) by (simp add: x)
    then have "1 \<le> triggers (detect umbral (millis_of t0) obs)"
      by (rule Cons.IH [OF ab wi])
    then show ?thesis
      using False cmp assms(3) by (simp add: x observe_def v triggers_Cons)
  qed
qed

lemma trigger_resets:
  "\<forall>r \<in> set (detect umbral ultimo obs). fst r = Triggered \<longrightarrow> snd r = 0"
proof (induction obs arbitrary: ultimo)
  case Nil
  show ?case by simp
next
  case (Cons x obs)
  obtain v t where x: "x = (v, t)" by (cases x)
  show ?case
    using Cons.IH by (simp add: x observe_def Let_def)
qed

text \<open>
  C1. The claim: a run of samples above the threshold that spans less than 2000 ms never
  emits \<open>Triggered\<close>, and one that spans more than 2000 ms emits exactly one, after which
  \<^verbatim>\<open>ultimoRuido\<close> is 0. The first half holds. For the second, the code clears
  \<^verbatim>\<open>ultimoRuido\<close> at a trigger and notes a new start at the next loud sample: a run that
  starts with the detector idle and spans more than 2000 ms emits at least one
  \<open>Triggered\<close>, exactly one when the run spans no more than 4001 ms, and every \<open>Triggered\<close>
  leaves \<^verbatim>\<open>ultimoRuido\<close> at 0. Both need the first reading of \<^verbatim>\<open>millis()\<close> in the run to
  differ from 0, the value the code keeps for "no noise running"; the first also needs the
  run to be shorter than the \<open>2^32\<close> ms after which \<^verbatim>\<open>millis()\<close> wraps around.
\<close>

theorem debounce:
  assumes "obs \<noteq> []" "all_above umbral obs" "sorted (map snd obs)"
  shows "(run_span obs < 2000 \<longrightarrow> triggers (detect umbral 0 obs) = 0)
       \<and> (2000 < run_span obs \<and> run_span obs < 2 ^ 32 \<and> millis_of (snd (hd obs)) \<noteq> 0
            \<longrightarrow> 1 \<le> triggers (detect umbral 0 obs))
       \<and> (2000 < run_span obs \<and> run_span obs \<le> 4001 \<and> millis_of (snd (hd obs)) \<noteq> 0
            \<longrightarrow> triggers (detect umbral 0 obs) = 1)
       \<and> (\<forall>r \<in> set (detect umbral 0 obs). fst r = Triggered \<longrightarrow> snd r = 0)"
proof -
  obtain v t0 rest where obs: "obs = (v, t0) # rest"
    using assms(1) by (cases obs) auto
  have v: "umbral < v" and ab: "all_above umbral rest"
    using assms(2) by (simp_all add: all_above_def obs)
  have so: "sorted (map snd rest)"
    using assms(3) by (simp add: obs)
  have win: "in_window t0 (snd (last obs)) obs"
    using sorted_window [OF assms(1,3)] by (simp add: obs)
  then have wr: "\<forall>x \<in> set rest. t0 \<le> snd x \<and> snd x \<le> snd (last obs)"
    by (simp add: in_window_def obs)
  have first: "detect umbral 0 obs = (NoEvent, millis_of t0) # detect umbral (millis_of t0) rest"
    by (simp add: obs observe_def v)
  have sp: "run_span obs = snd (last obs) - t0"
    by (simp add: run_span_def obs)
  have late: "\<exists>x \<in> set rest. 2000 < snd x - t0" if "2000 < run_span obs"
  proof -
    have "rest \<noteq> []"
      using that by (auto simp: run_span_def obs)
    then have "last obs \<in> set rest"
      by (simp add: obs)
    then show ?thesis
      using that sp by auto
  qed
  have p1: "triggers (detect umbral 0 obs) = 0" if "run_span obs < 2000"
    by (rule short_run_silent [OF assms]) (use that in simp)
  have p2: "1 \<le> triggers (detect umbral 0 obs)"
    if "2000 < run_span obs" "run_span obs < 2 ^ 32" "millis_of t0 \<noteq> 0"
  proof -
    have "\<forall>x \<in> set rest. t0 \<le> snd x \<and> snd x - t0 < 2 ^ 32"
      using wr that(2) sp by fastforce
    then have "1 \<le> triggers (detect umbral (millis_of t0) rest)"
      by (rule armed_fires [OF ab _ that(3) late [OF that(1)]])
    then show ?thesis
      by (simp add: first triggers_Cons)
  qed
  have p3: "triggers (detect umbral 0 obs) = 1"
    if "2000 < run_span obs" "run_span obs \<le> 4001" "millis_of t0 \<noteq> 0"
  proof -
    have "in_window t0 (t0 + 4001) rest"
      unfolding in_window_def using wr that(2) sp by fastforce
    then have "triggers (detect umbral (millis_of t0) rest) =
        (if \<exists>x \<in> set rest. 2000 < snd x - t0 then 1 else 0)"
      by (rule armed_once [OF ab so _ that(3)])
    then show ?thesis
      using late [OF that(1)] by (simp add: first triggers_Cons)
  qed
  have hd: "snd (hd obs) = t0"
    by (simp add: obs)
  show ?thesis
    using p1 p2 p3 trigger_resets [of umbral 0 obs] unfolding hd by blast
qed

theorem debounce_witness:
  "triggers (detect 100 0 burst_1900) = 0 \<and> triggers (detect 100 0 burst_2100) = 1
   \<and> 1 \<le> triggers (detect 100 0 burst_2100)"
proof -
  have a: "burst_1900 \<noteq> []" "all_above 100 burst_1900" "sorted (map snd burst_1900)"
    and a': "run_span burst_1900 < 2000"
    by (simp_all add: burst_1900_def all_above_def run_span_def)
  have b: "burst_2100 \<noteq> []" "all_above 100 burst_2100" "sorted (map snd burst_2100)"
    and b': "2000 < run_span burst_2100" "run_span burst_2100 \<le> 4001"
      "run_span burst_2100 < 2 ^ 32" "millis_of (snd (hd burst_2100)) \<noteq> 0"
    by (simp_all add: burst_2100_def all_above_def run_span_def millis_of_def)
  show ?thesis
    using a' b' debounce [OF a] debounce [OF b] by blast
qed

text \<open>A run of 4012 ms, sampled at 5000, 7001, 7011 and 9012 ms, triggers twice.\<close>

theorem debounce_counterexample:
  "run_span burst_4012 = 4012 \<and> map fst (detect 100 0 burst_4012) = [NoEvent, Triggered, NoEvent, Triggered]
     \<and> triggers (detect 100 0 burst_4012) = 2"
  by (simp add: burst_4012_def run_span_def observe_def millis_of_def TRIGGER_DURATION_def triggers_def
        Let_def)

lemma detect_append:
  "detect umbral ultimo (xs @ ys) = detect umbral ultimo xs @ detect umbral (final umbral ultimo xs) ys"
proof (induction xs arbitrary: ultimo)
  case Nil
  show ?case by simp
next
  case (Cons x xs)
  obtain v t where x: "x = (v, t)" by (cases x)
  show ?case by (simp add: x Cons.IH Let_def)
qed

lemma final_append:
  "final umbral ultimo (xs @ ys) = final umbral (final umbral ultimo xs) ys"
proof (induction xs arbitrary: ultimo)
  case Nil
  show ?case by simp
next
  case (Cons x xs)
  obtain v t where x: "x = (v, t)" by (cases x)
  show ?case by (simp add: x Cons.IH)
qed

lemma triggers_append: "triggers (xs @ ys) = triggers xs + triggers ys"
  by (simp add: triggers_def)

lemma final_below: "fst b \<le> umbral \<Longrightarrow> final umbral ultimo [b] = 0"
  by (cases b) (simp add: observe_def)

lemma triggers_below: "fst b \<le> umbral \<Longrightarrow> triggers (detect umbral ultimo [b]) = 0"
  by (cases b) (simp add: observe_def triggers_def)

lemma interrupted_silent:
  assumes "all_above umbral xs" "sorted (map snd xs)" "xs \<noteq> []" "run_span xs \<le> 2000"
    and "fst b \<le> umbral"
    and "all_above umbral ys" "sorted (map snd ys)" "ys \<noteq> []" "run_span ys \<le> 2000"
  shows "triggers (detect umbral 0 (xs @ [b] @ ys)) = 0" and "final umbral 0 (xs @ [b]) = 0"
proof -
  have idle: "final umbral (final umbral 0 xs) [b] = 0"
    by (rule final_below [OF assms(5)])
  show "final umbral 0 (xs @ [b]) = 0"
    by (simp only: final_append idle)
  have "detect umbral 0 (xs @ [b] @ ys) =
          detect umbral 0 xs @ detect umbral (final umbral 0 xs) [b] @ detect umbral 0 ys"
    by (simp only: detect_append idle)
  then show "triggers (detect umbral 0 (xs @ [b] @ ys)) = 0"
    by (simp only: triggers_append triggers_below [OF assms(5)]
          short_run_silent [OF assms(3,1,2,4)] short_run_silent [OF assms(8,6,7,9)])
qed

lemma timestamp_run:
  "final umbral 0 obs \<noteq> 0 \<Longrightarrow>
     \<exists>pre run. obs = pre @ run \<and> run \<noteq> [] \<and> all_above umbral run
        \<and> final umbral 0 obs = millis_of (snd (hd run))"
proof (induction obs rule: rev_induct)
  case Nil
  then show ?case by simp
next
  case (snoc x obs)
  obtain v t where x: "x = (v, t)" by (cases x)
  have step: "final umbral 0 (obs @ [x]) = snd (observe umbral (final umbral 0 obs) v (millis_of t))"
    by (simp add: final_append x)
  have v: "umbral < v"
    using snoc.prems unfolding step by (simp add: observe_def split: if_splits)
  show ?case
  proof (cases "final umbral 0 obs = 0")
    case True
    then have "final umbral 0 (obs @ [x]) = millis_of (snd (hd [x]))"
      unfolding step by (simp add: observe_def v x)
    moreover have "all_above umbral [x]"
      by (simp add: all_above_def x v)
    ultimately show ?thesis by blast
  next
    case False
    then have keep: "final umbral 0 (obs @ [x]) = final umbral 0 obs"
      using snoc.prems unfolding step by (simp add: observe_def split: if_splits)
    obtain pre run where r: "obs = pre @ run" "run \<noteq> []" "all_above umbral run"
        "final umbral 0 obs = millis_of (snd (hd run))"
      using snoc.IH [OF False] by blast
    have "obs @ [x] = pre @ (run @ [x])" "run @ [x] \<noteq> []"
      using r(1) by simp_all
    moreover have "all_above umbral (run @ [x])"
      using r(3) v by (simp add: all_above_def x)
    moreover have "final umbral 0 (obs @ [x]) = millis_of (snd (hd (run @ [x])))"
      using keep r(2,4) by simp
    ultimately show ?thesis by blast
  qed
qed

text \<open>
  C7. A run above the threshold of 1000 ms, then one sample that is not above it, then a
  run above the threshold of 1500 ms, fed to the idle detector: no \<open>Triggered\<close> is emitted,
  and the one quiet sample leaves \<^verbatim>\<open>ultimoRuido\<close> at 0. Moreover, after any sequence of
  observations fed to the idle detector, \<^verbatim>\<open>ultimoRuido\<close> differs from 0 only if the sequence
  ends with a run of samples all above the threshold, and then it is the time read at the
  first sample of that run.
\<close>

theorem interruption_resets:
  assumes "all_above umbral xs" "sorted (map snd xs)" "xs \<noteq> []" "run_span xs \<le> 1000"
    and "fst b \<le> umbral"
    and "all_above umbral ys" "sorted (map snd ys)" "ys \<noteq> []" "run_span ys \<le> 1500"
  shows "triggers (detect umbral 0 (xs @ [b] @ ys)) = 0
       \<and> final umbral 0 (xs @ [b]) = 0
       \<and> (final umbral 0 obs \<noteq> 0 \<longrightarrow>
            (\<exists>pre run. obs = pre @ run \<and> run \<noteq> [] \<and> all_above umbral run
               \<and> final umbral 0 obs = millis_of (snd (hd run))))"
proof -
  have x: "run_span xs \<le> 2000" and y: "run_span ys \<le> 2000"
    using assms(4,9) by simp_all
  show ?thesis
    using interrupted_silent [OF assms(1-3) x assms(5-8) y] timestamp_run [of umbral obs]
    by blast
qed

theorem interruption_resets_witness:
  "triggers (detect 100 0 (burst_1000 @ [(50, 4010)] @ burst_1500)) = 0
   \<and> final 100 0 (burst_1000 @ [(50, 4010)]) = 0
   \<and> final 100 0 burst_1000 = 3000"
proof -
  have h: "all_above 100 burst_1000" "sorted (map snd burst_1000)" "burst_1000 \<noteq> []"
      "run_span burst_1000 \<le> 1000" "fst (50 :: int, 4010 :: nat) \<le> 100"
      "all_above 100 burst_1500" "sorted (map snd burst_1500)" "burst_1500 \<noteq> []"
      "run_span burst_1500 \<le> 1500"
    by (simp_all add: burst_1000_def burst_1500_def all_above_def run_span_def)
  have f: "final 100 0 burst_1000 = 3000"
    by (simp add: burst_1000_def observe_def millis_of_def TRIGGER_DURATION_def)
  show ?thesis
    using interruption_resets [OF h, of burst_1000] f by simp
qed

section \<open>The player\<close>

lemma output_chunk_frame:
  "\<exists>lv ws. output_chunk bs s = s\<lparr>dac_level := lv, dac_writes := ws\<rparr>"
proof (induction bs arbitrary: s)
  case Nil
  have "s = s\<lparr>dac_level := dac_level s, dac_writes := dac_writes s\<rparr>" by simp
  then show ?case by (metis output_chunk.simps(1))
next
  case (Cons b bs)
  let ?s1 = "delayMicroseconds 125
          (dac_output_voltage (word_of_int (map_long (uint b) 0 255 0 VOLUME_LEVEL)) s)"
  obtain lv ws where "output_chunk bs ?s1 = ?s1\<lparr>dac_level := lv, dac_writes := ws\<rparr>"
    using Cons.IH by blast
  then have "output_chunk (b # bs) s = s\<lparr>dac_level := lv, dac_writes := ws\<rparr>"
    by (simp add: delayMicroseconds_def dac_output_voltage_def)
  then show ?case by blast
qed

lemma play_loop_done:
  "rest = [] \<or> \<not> reproduciendo s \<Longrightarrow> play_loop e rest s = (Completed, s)"
  by (subst play_loop.simps) auto

lemma play_loop_step:
  assumes "rest \<noteq> []" "reproduciendo s"
  shows "play_loop e rest s =
     (if millis_of (clock e (clock_reads s)) - inicioReproduccion s > PLAYBACK_DURATION
      then (MaxDurationExceeded, (output_chunk (take 512 rest) s)\<lparr>clock_reads := Suc (clock_reads s)\<rparr>)
      else play_loop e (drop 512 rest) ((output_chunk (take 512 rest) s)\<lparr>clock_reads := Suc (clock_reads s)\<rparr>))"
proof -
  obtain lv ws where oc: "output_chunk (take 512 rest) s = s\<lparr>dac_level := lv, dac_writes := ws\<rparr>"
    using output_chunk_frame by blast
  show ?thesis
    using assms by (subst play_loop.simps) (simp add: Let_def millis_def oc)
qed

lemma play_loop_frame:
  "\<exists>lv ws n. snd (play_loop e rest s) = s\<lparr>dac_level := lv, dac_writes := ws, clock_reads := n\<rparr>"
proof (induction rest arbitrary: s rule: length_induct)
  case (1 rest)
  show ?case
  proof (cases "rest = [] \<or> \<not> reproduciendo s")
    case True
    have "s = s\<lparr>dac_level := dac_level s, dac_writes := dac_writes s, clock_reads := clock_reads s\<rparr>"
      by simp
    then show ?thesis
      unfolding play_loop_done [OF True] by (metis snd_conv)
  next
    case False
    then have ne: "rest \<noteq> []" and pl: "reproduciendo s" by simp_all
    obtain lv ws where oc: "output_chunk (take 512 rest) s = s\<lparr>dac_level := lv, dac_writes := ws\<rparr>"
      using output_chunk_frame by blast
    let ?s2 = "(output_chunk (take 512 rest) s)\<lparr>clock_reads := Suc (clock_reads s)\<rparr>"
    have "length (drop 512 rest) < length rest"
      using ne by simp
    then obtain lv' ws' n' where rec: "snd (play_loop e (drop 512 rest) ?s2) =
        ?s2\<lparr>dac_level := lv', dac_writes := ws', clock_reads := n'\<rparr>"
      using 1 by blast
    show ?thesis
    proof (cases "millis_of (clock e (clock_reads s)) - inicioReproduccion s > PLAYBACK_DURATION")
      case True
      then have "snd (play_loop e rest s) = s\<lparr>dac_level := lv, dac_writes := ws, clock_reads := Suc (clock_reads s)\<rparr>"
        by (simp add: play_loop_step [OF ne pl] oc)
      then show ?thesis by blast
    next
      case False
      then have "snd (play_loop e rest s) = s\<lparr>dac_level := lv', dac_writes := ws', clock_reads := n'\<rparr>"
        by (simp add: play_loop_step [OF ne pl] rec) (simp add: oc)
      then show ?thesis by blast
    qed
  qed
qed

lemma elapsed_cmp:
  assumes "t0 \<le> t" "t - t0 < 2 ^ 32"
  shows "(PLAYBACK_DURATION < millis_of t - millis_of t0) = (t0 + 30000 < t)"
proof -
  have "millis_of t - millis_of t0 = (of_nat (t - t0) :: u32)"
    using assms(1) by (simp add: millis_of_def)
  moreover have "unat (of_nat (t - t0) :: u32) = t - t0"
    using assms(2) by (simp add: unat_of_nat)
  ultimately have "(PLAYBACK_DURATION < millis_of t - millis_of t0) = (30000 < t - t0)"
    by (simp add: PLAYBACK_DURATION_def word_less_nat_alt)
  then show ?thesis
    using assms(1) by auto
qed

lemma nchunks_pos: "0 < nchunks rest \<Longrightarrow> rest \<noteq> []"
  by (auto simp: nchunks_def)

lemma nchunks_drop: "nchunks (drop 512 rest) = nchunks rest - 1"
  unfolding nchunks_def length_drop by arith

lemma play_cap:
  assumes "reproduciendo s" "inicioReproduccion s = millis_of t0" "nchunks rest = Suc n"
    and "t0 \<le> p" "p \<le> t0 + 30000"
    and "p \<le> clock e (clock_reads s)" "clock e (clock_reads s) - p < 2 ^ 32 - 30000"
    and "\<forall>k<n. clock e (clock_reads s + k) \<le> clock e (clock_reads s + Suc k)
              \<and> clock e (clock_reads s + Suc k) - clock e (clock_reads s + k) < 2 ^ 32 - 30000"
    and "t0 + 30000 < clock e (clock_reads s + n)"
  shows "\<exists>j\<le>n. fst (play_loop e rest s) = MaxDurationExceeded
           \<and> clock_reads (snd (play_loop e rest s)) = Suc (clock_reads s + j)
           \<and> t0 + 30000 < clock e (clock_reads s + j)
           \<and> (if j = 0 then p else clock e (clock_reads s + j - 1)) \<le> t0 + 30000"
  using assms
proof (induction n arbitrary: rest s p)
  case 0
  have ne: "rest \<noteq> []"
    using "0.prems"(3) by (intro nchunks_pos) simp
  have "t0 \<le> clock e (clock_reads s)" "clock e (clock_reads s) - t0 < 2 ^ 32"
    using "0.prems"(4-7) by simp_all
  then have "PLAYBACK_DURATION < millis_of (clock e (clock_reads s)) - inicioReproduccion s"
    using "0.prems"(9) by (simp add: "0.prems"(2) elapsed_cmp)
  then show ?case
    using "0.prems"(5,9) by (simp add: play_loop_step [OF ne "0.prems"(1)])
next
  case (Suc n)
  let ?m = "clock_reads s"
  have ne: "rest \<noteq> []"
    using Suc.prems(3) by (intro nchunks_pos) simp
  have le: "t0 \<le> clock e ?m" "clock e ?m - t0 < 2 ^ 32"
    using Suc.prems(4-7) by simp_all
  have cmp: "(PLAYBACK_DURATION < millis_of (clock e ?m) - inicioReproduccion s)
              = (t0 + 30000 < clock e ?m)"
    using le by (simp add: Suc.prems(2) elapsed_cmp)
  show ?case
  proof (cases "t0 + 30000 < clock e ?m")
    case True
    then have "fst (play_loop e rest s) = MaxDurationExceeded
           \<and> clock_reads (snd (play_loop e rest s)) = Suc (?m + 0)
           \<and> t0 + 30000 < clock e (?m + 0)
           \<and> (if (0::nat) = 0 then p else clock e (?m + 0 - 1)) \<le> t0 + 30000"
      using cmp Suc.prems(5) by (simp add: play_loop_step [OF ne Suc.prems(1)])
    then show ?thesis by blast
  next
    case False
    obtain lv ws where oc: "output_chunk (take 512 rest) s = s\<lparr>dac_level := lv, dac_writes := ws\<rparr>"
      using output_chunk_frame by blast
    let ?s2 = "(output_chunk (take 512 rest) s)\<lparr>clock_reads := Suc ?m\<rparr>"
    have unfold: "play_loop e rest s = play_loop e (drop 512 rest) ?s2"
      using cmp False by (simp add: play_loop_step [OF ne Suc.prems(1)])
    have s2: "reproduciendo ?s2" "inicioReproduccion ?s2 = millis_of t0" "clock_reads ?s2 = Suc ?m"
      using Suc.prems(1,2) by (simp_all add: oc)
    have nc: "nchunks (drop 512 rest) = Suc n"
      by (simp add: nchunks_drop Suc.prems(3))
    have st0: "clock e ?m \<le> clock e (Suc ?m)" "clock e (Suc ?m) - clock e ?m < 2 ^ 32 - 30000"
      using Suc.prems(8) by (auto dest: spec [of _ 0])
    have st: "\<forall>k<n. clock e (Suc ?m + k) \<le> clock e (Suc ?m + Suc k)
              \<and> clock e (Suc ?m + Suc k) - clock e (Suc ?m + k) < 2 ^ 32 - 30000"
    proof (intro allI impI)
      fix k assume "k < n"
      then have "Suc k < Suc n" by simp
      from Suc.prems(8) [rule_format, OF this] show "clock e (Suc ?m + k) \<le> clock e (Suc ?m + Suc k)
              \<and> clock e (Suc ?m + Suc k) - clock e (Suc ?m + k) < 2 ^ 32 - 30000"
        by simp
    qed
    have long: "t0 + 30000 < clock e (Suc ?m + n)"
      using Suc.prems(9) by simp
    have within: "clock e ?m \<le> t0 + 30000"
      using False by simp
    have "\<exists>j\<le>n. fst (play_loop e (drop 512 rest) ?s2) = MaxDurationExceeded
           \<and> clock_reads (snd (play_loop e (drop 512 rest) ?s2)) = Suc (clock_reads ?s2 + j)
           \<and> t0 + 30000 < clock e (clock_reads ?s2 + j)
           \<and> (if j = 0 then clock e ?m else clock e (clock_reads ?s2 + j - 1)) \<le> t0 + 30000"
    proof (rule Suc.IH)
      show "reproduciendo ?s2" by (rule s2(1))
      show "inicioReproduccion ?s2 = millis_of t0" by (rule s2(2))
      show "nchunks (drop 512 rest) = Suc n" by (rule nc)
      show "t0 \<le> clock e ?m" by (rule le(1))
      show "clock e ?m \<le> t0 + 30000" by (rule within)
      show "clock e ?m \<le> clock e (clock_reads ?s2)" unfolding s2(3) by (rule st0(1))
      show "clock e (clock_reads ?s2) - clock e ?m < 2 ^ 32 - 30000"
        unfolding s2(3) by (rule st0(2))
      show "\<forall>k<n. clock e (clock_reads ?s2 + k) \<le> clock e (clock_reads ?s2 + Suc k)
              \<and> clock e (clock_reads ?s2 + Suc k) - clock e (clock_reads ?s2 + k) < 2 ^ 32 - 30000"
        unfolding s2(3) by (rule st)
      show "t0 + 30000 < clock e (clock_reads ?s2 + n)" unfolding s2(3) by (rule long)
    qed
    then obtain j where j: "j \<le> n" "fst (play_loop e (drop 512 rest) ?s2) = MaxDurationExceeded"
        "clock_reads (snd (play_loop e (drop 512 rest) ?s2)) = Suc (Suc ?m + j)"
        "t0 + 30000 < clock e (Suc ?m + j)"
        "(if j = 0 then clock e ?m else clock e (Suc ?m + j - 1)) \<le> t0 + 30000"
      unfolding s2(3) by blast
    have "Suc j \<le> Suc n \<and> fst (play_loop e rest s) = MaxDurationExceeded
           \<and> clock_reads (snd (play_loop e rest s)) = Suc (?m + Suc j)
           \<and> t0 + 30000 < clock e (?m + Suc j)
           \<and> (if Suc j = 0 then p else clock e (?m + Suc j - 1)) \<le> t0 + 30000"
      using j by (auto simp: unfold split: if_splits)
    then show ?thesis by blast
  qed
qed

lemma play_within:
  assumes "reproduciendo s" "inicioReproduccion s = millis_of t0"
    and "\<forall>k<nchunks rest. t0 \<le> clock e (clock_reads s + k) \<and> clock e (clock_reads s + k) \<le> t0 + 30000"
  shows "fst (play_loop e rest s) = Completed
       \<and> clock_reads (snd (play_loop e rest s)) = clock_reads s + nchunks rest"
  using assms
proof (induction rest arbitrary: s rule: length_induct)
  case (1 rest)
  show ?case
  proof (cases "rest = []")
    case True
    then show ?thesis
      by (simp add: play_loop_done nchunks_def)
  next
    case False
    let ?m = "clock_reads s"
    have pos: "0 < nchunks rest"
      using False by (cases rest) (simp_all add: nchunks_def)
    then have b: "t0 \<le> clock e ?m" "clock e ?m \<le> t0 + 30000"
      using "1.prems"(3) by (auto dest: spec [of _ 0])
    then have "\<not> PLAYBACK_DURATION < millis_of (clock e ?m) - inicioReproduccion s"
      by (simp add: "1.prems"(2) elapsed_cmp)
    then have unfold: "play_loop e rest s =
        play_loop e (drop 512 rest) ((output_chunk (take 512 rest) s)\<lparr>clock_reads := Suc ?m\<rparr>)"
      by (simp add: play_loop_step [OF False "1.prems"(1)])
    obtain lv ws where oc: "output_chunk (take 512 rest) s = s\<lparr>dac_level := lv, dac_writes := ws\<rparr>"
      using output_chunk_frame by blast
    let ?s2 = "(output_chunk (take 512 rest) s)\<lparr>clock_reads := Suc ?m\<rparr>"
    have s2: "reproduciendo ?s2" "inicioReproduccion ?s2 = millis_of t0" "clock_reads ?s2 = Suc ?m"
      using "1.prems"(1,2) by (simp_all add: oc)
    have shorter: "length (drop 512 rest) < length rest"
      using False by simp
    have rest: "\<forall>k<nchunks (drop 512 rest). t0 \<le> clock e (clock_reads ?s2 + k)
        \<and> clock e (clock_reads ?s2 + k) \<le> t0 + 30000"
    proof (intro allI impI)
      fix k assume "k < nchunks (drop 512 rest)"
      then have "Suc k < nchunks rest" by (simp add: nchunks_drop)
      from "1.prems"(3) [rule_format, OF this]
      show "t0 \<le> clock e (clock_reads ?s2 + k) \<and> clock e (clock_reads ?s2 + k) \<le> t0 + 30000"
        by (simp add: s2)
    qed
    have "fst (play_loop e (drop 512 rest) ?s2) = Completed
       \<and> clock_reads (snd (play_loop e (drop 512 rest) ?s2)) = clock_reads ?s2 + nchunks (drop 512 rest)"
      using "1.IH" shorter s2(1,2) rest by blast
    then show ?thesis
      using pos by (simp add: unfold s2 nchunks_drop)
  qed
qed

lemma audio_no_card:
  assumes "\<not> sd_ok e (sd_begins s)"
  shows "reproducirAudio e s =
     (AssetError StorageUnavailable, s\<lparr>sd_begins := Suc (sd_begins s), serial := serial s @ [ErrorSD]\<rparr>)"
  using assms by (simp add: reproducirAudio_def SD_begin_def println_def)

lemma audio_no_file:
  assumes "sd_ok e (sd_begins s)" "calm_wav e = None"
  shows "reproducirAudio e s =
     (AssetError NotFound, s\<lparr>sd_begins := Suc (sd_begins s), serial := serial s @ [ErrorNoCalm]\<rparr>)"
  using assms by (simp add: reproducirAudio_def SD_begin_def println_def)

lemma audio_bad_magic:
  assumes "sd_ok e (sd_begins s)" "calm_wav e = Some contents" "\<not> magic_ok e contents"
  shows "reproducirAudio e s =
     (AssetError InvalidFormat, s\<lparr>sd_begins := Suc (sd_begins s), serial := serial s @ [ErrorNoWav]\<rparr>)"
  using assms
  by (auto simp add: reproducirAudio_def SD_begin_def println_def file_open_def file_close_def
        magic_ok_def Let_def)

lemma audio_plays:
  assumes "sd_ok e (sd_begins s)" "calm_wav e = Some contents" "magic_ok e contents"
  shows "reproducirAudio e s =
     (fst (play_loop e (drop 44 contents) (play_start e s)),
      (snd (play_loop e (drop 44 contents) (play_start e s)))
        \<lparr>handles := handles s, dac_level := 0,
         dac_writes := dac_writes (snd (play_loop e (drop 44 contents) (play_start e s))) @ [0],
         reproduciendo := False,
         serial := serial s @ [ReproduciendoAudio, ReproduccionFinalizada]\<rparr>)"
proof -
  let ?s7 = "play_start e s"
  obtain lv ws n where fr: "snd (play_loop e (drop 44 contents) ?s7) =
      ?s7\<lparr>dac_level := lv, dac_writes := ws, clock_reads := n\<rparr>"
    using play_loop_frame by blast
  have s7: "s\<lparr>sd_begins := Suc (sd_begins s), handles := Suc (handles s),
       serial := serial s @ [ReproduciendoAudio], dac_enabled := True, reproduciendo := True,
       clock_reads := Suc (clock_reads s),
       inicioReproduccion := millis_of (clock e (clock_reads s))\<rparr> = ?s7"
    by (simp add: play_start_def)
  have "reproducirAudio e s =
     (fst (play_loop e (drop 44 contents) ?s7),
      println ReproduccionFinalizada
        ((dac_output_voltage 0 (file_close (snd (play_loop e (drop 44 contents) ?s7))))
           \<lparr>reproduciendo := False\<rparr>))"
    using assms
    by (simp add: reproducirAudio_def SD_begin_def println_def file_open_def
        dac_output_enable_def millis_def magic_ok_def Let_def split_beta play_start_def)
  then show ?thesis
    by (simp add: fr println_def dac_output_voltage_def file_close_def) (simp add: play_start_def)
qed

lemma magic_take:
  assumes "4 \<le> length contents"
  shows "magic_ok e contents = (take 4 contents = RIFF)"
proof -
  obtain a b c d rest where "contents = a # b # c # d # rest"
    using assms by (auto simp: numeral_eq_Suc Suc_le_length_iff)
  then show ?thesis
    by (auto simp: magic_ok_def read_header_def RIFF_def)
qed

lemma play_loop_result: "fst (play_loop e rest s) \<in> {Completed, MaxDurationExceeded}"
proof (induction rest arbitrary: s rule: length_induct)
  case (1 rest)
  show ?case
  proof (cases "rest = [] \<or> \<not> reproduciendo s")
    case True
    then show ?thesis by (simp add: play_loop_done)
  next
    case False
    then have ne: "rest \<noteq> []" and pl: "reproduciendo s" by simp_all
    have "length (drop 512 rest) < length rest"
      using ne by simp
    then have "fst (play_loop e (drop 512 rest) s') \<in> {Completed, MaxDurationExceeded}" for s'
      using 1 by blast
    then show ?thesis
      by (simp add: play_loop_step [OF ne pl])
  qed
qed

text \<open>The four ways through \<^verbatim>\<open>reproducirAudio\<close>, each with the state it leaves.\<close>

lemma audio_paths:
  obtains
    (no_card) "reproducirAudio e s =
       (AssetError StorageUnavailable, s\<lparr>sd_begins := Suc (sd_begins s), serial := serial s @ [ErrorSD]\<rparr>)"
  | (no_file) "reproducirAudio e s =
       (AssetError NotFound, s\<lparr>sd_begins := Suc (sd_begins s), serial := serial s @ [ErrorNoCalm]\<rparr>)"
  | (bad_magic) "reproducirAudio e s =
       (AssetError InvalidFormat, s\<lparr>sd_begins := Suc (sd_begins s), serial := serial s @ [ErrorNoWav]\<rparr>)"
  | (played) r lv ws n where "r \<in> {Completed, MaxDurationExceeded}"
      "reproducirAudio e s =
       (r, s\<lparr>sd_begins := Suc (sd_begins s), dac_enabled := True, reproduciendo := False,
              inicioReproduccion := millis_of (clock e (clock_reads s)),
              clock_reads := n, dac_level := 0, dac_writes := ws @ [0],
              serial := serial s @ [ReproduciendoAudio, ReproduccionFinalizada]\<rparr>)"
proof (cases "sd_ok e (sd_begins s)")
  case False
  then show ?thesis using audio_no_card no_card by blast
next
  case sd: True
  show ?thesis
  proof (cases "calm_wav e")
    case None
    then show ?thesis using audio_no_file [OF sd] no_file by blast
  next
    case (Some contents)
    show ?thesis
    proof (cases "magic_ok e contents")
      case False
      then show ?thesis using audio_bad_magic [OF sd Some] bad_magic by blast
    next
      case True
      let ?s7 = "play_start e s"
      obtain lv ws n where fr: "snd (play_loop e (drop 44 contents) ?s7) =
          ?s7\<lparr>dac_level := lv, dac_writes := ws, clock_reads := n\<rparr>"
        using play_loop_frame by blast
      have "reproducirAudio e s =
        (fst (play_loop e (drop 44 contents) ?s7),
         s\<lparr>sd_begins := Suc (sd_begins s), dac_enabled := True, reproduciendo := False,
              inicioReproduccion := millis_of (clock e (clock_reads s)),
              clock_reads := n, dac_level := 0, dac_writes := ws @ [0],
              serial := serial s @ [ReproduciendoAudio, ReproduccionFinalizada]\<rparr>)"
        by (simp add: audio_plays [OF sd Some True] fr) (simp add: play_start_def)
      then show ?thesis
        using played play_loop_result by blast
    qed
  qed
qed

lemma play_loop_env: "play_loop (e\<lparr>calm_wav := w\<rparr>) rest s = play_loop e rest s"
proof (induction rest arbitrary: s rule: length_induct)
  case (1 rest)
  show ?case
  proof (cases "rest = [] \<or> \<not> reproduciendo s")
    case True
    then show ?thesis by (simp add: play_loop_done)
  next
    case False
    then have ne: "rest \<noteq> []" and pl: "reproduciendo s" by simp_all
    have "length (drop 512 rest) < length rest"
      using ne by simp
    then have "play_loop (e\<lparr>calm_wav := w\<rparr>) (drop 512 rest) s' = play_loop e (drop 512 rest) s'" for s'
      using 1 by blast
    then show ?thesis
      by (simp add: play_loop_step [OF ne pl])
  qed
qed

lemma audio_capped:
  assumes "sd_ok e (sd_begins s)" "calm_wav e = Some contents" "magic_ok e contents"
    and "n = nchunks (drop 44 contents)"
    and "\<forall>k<n. clock e (clock_reads s + k) \<le> clock e (clock_reads s + Suc k)
              \<and> clock e (clock_reads s + Suc k) - clock e (clock_reads s + k) < 2 ^ 32 - 30000"
    and "clock e (clock_reads s) + 30000 < clock e (clock_reads s + n)"
  shows "fst (reproducirAudio e s) = MaxDurationExceeded
       \<and> (\<exists>j. 1 \<le> j \<and> j \<le> n
            \<and> clock_reads (snd (reproducirAudio e s)) = clock_reads s + Suc j
            \<and> clock e (clock_reads s) + 30000 < clock e (clock_reads s + j)
            \<and> clock e (clock_reads s + j - 1) \<le> clock e (clock_reads s) + 30000)"
proof -
  let ?c = "clock_reads s"
  let ?s7 = "play_start e s"
  let ?t0 = "clock e ?c"
  have s7: "reproduciendo ?s7" "inicioReproduccion ?s7 = millis_of ?t0" "clock_reads ?s7 = Suc ?c"
    by (simp_all add: play_start_def)
  have "n \<noteq> 0"
    using assms(6) by (cases n) simp_all
  then obtain n' where n': "n = Suc n'"
    by (cases n) simp_all
  have first: "?t0 \<le> clock e (Suc ?c)" "clock e (Suc ?c) - ?t0 < 2 ^ 32 - 30000"
    using assms(5) [rule_format, of 0] by (simp_all add: n')
  have later: "\<forall>k<n'. clock e (Suc ?c + k) \<le> clock e (Suc ?c + Suc k)
              \<and> clock e (Suc ?c + Suc k) - clock e (Suc ?c + k) < 2 ^ 32 - 30000"
  proof (intro allI impI)
    fix k assume "k < n'"
    then have "Suc k < n" by (simp add: n')
    from assms(5) [rule_format, OF this]
    show "clock e (Suc ?c + k) \<le> clock e (Suc ?c + Suc k)
              \<and> clock e (Suc ?c + Suc k) - clock e (Suc ?c + k) < 2 ^ 32 - 30000"
      by simp
  qed
  have "\<exists>j\<le>n'. fst (play_loop e (drop 44 contents) ?s7) = MaxDurationExceeded
           \<and> clock_reads (snd (play_loop e (drop 44 contents) ?s7)) = Suc (clock_reads ?s7 + j)
           \<and> ?t0 + 30000 < clock e (clock_reads ?s7 + j)
           \<and> (if j = 0 then ?t0 else clock e (clock_reads ?s7 + j - 1)) \<le> ?t0 + 30000"
  proof (rule play_cap)
    show "reproduciendo ?s7" by (rule s7(1))
    show "inicioReproduccion ?s7 = millis_of ?t0" by (rule s7(2))
    show "nchunks (drop 44 contents) = Suc n'" using assms(4) n' by simp
    show "?t0 \<le> ?t0" "?t0 \<le> ?t0 + 30000" by simp_all
    show "?t0 \<le> clock e (clock_reads ?s7)" unfolding s7(3) by (rule first(1))
    show "clock e (clock_reads ?s7) - ?t0 < 2 ^ 32 - 30000" unfolding s7(3) by (rule first(2))
    show "\<forall>k<n'. clock e (clock_reads ?s7 + k) \<le> clock e (clock_reads ?s7 + Suc k)
              \<and> clock e (clock_reads ?s7 + Suc k) - clock e (clock_reads ?s7 + k) < 2 ^ 32 - 30000"
      unfolding s7(3) by (rule later)
    show "?t0 + 30000 < clock e (clock_reads ?s7 + n')"
      unfolding s7(3) using assms(6) by (simp add: n')
  qed
  then obtain j where j: "j \<le> n'" "fst (play_loop e (drop 44 contents) ?s7) = MaxDurationExceeded"
      "clock_reads (snd (play_loop e (drop 44 contents) ?s7)) = Suc (Suc ?c + j)"
      "?t0 + 30000 < clock e (Suc ?c + j)"
      "(if j = 0 then ?t0 else clock e (Suc ?c + j - 1)) \<le> ?t0 + 30000"
    unfolding s7(3) by blast
  have prev: "clock e (?c + Suc j - 1) \<le> ?t0 + 30000"
    using j(5) by (cases j) simp_all
  have "1 \<le> Suc j \<and> Suc j \<le> n
        \<and> clock_reads (snd (reproducirAudio e s)) = ?c + Suc (Suc j)
        \<and> ?t0 + 30000 < clock e (?c + Suc j)
        \<and> clock e (?c + Suc j - 1) \<le> ?t0 + 30000"
    using j(1,3,4) prev by (simp add: audio_plays [OF assms(1-3)] n')
  moreover have "fst (reproducirAudio e s) = MaxDurationExceeded"
    using j(2) by (simp add: audio_plays [OF assms(1-3)])
  ultimately show ?thesis by blast
qed

lemma audio_completes:
  assumes "sd_ok e (sd_begins s)" "calm_wav e = Some contents" "magic_ok e contents"
    and "\<forall>k\<le>nchunks (drop 44 contents). clock e (clock_reads s) \<le> clock e (clock_reads s + k)
              \<and> clock e (clock_reads s + k) \<le> clock e (clock_reads s) + 30000"
  shows "fst (reproducirAudio e s) = Completed"
proof -
  let ?s7 = "play_start e s"
  have s7: "reproduciendo ?s7" "inicioReproduccion ?s7 = millis_of (clock e (clock_reads s))"
      "clock_reads ?s7 = Suc (clock_reads s)"
    by (simp_all add: play_start_def)
  have "\<forall>k<nchunks (drop 44 contents).
      clock e (clock_reads s) \<le> clock e (clock_reads ?s7 + k)
      \<and> clock e (clock_reads ?s7 + k) \<le> clock e (clock_reads s) + 30000"
  proof (intro allI impI)
    fix k assume "k < nchunks (drop 44 contents)"
    then have "Suc k \<le> nchunks (drop 44 contents)" by simp
    from assms(4) [rule_format, OF this]
    show "clock e (clock_reads s) \<le> clock e (clock_reads ?s7 + k)
      \<and> clock e (clock_reads ?s7 + k) \<le> clock e (clock_reads s) + 30000"
      by (simp add: s7(3))
  qed
  then have "fst (play_loop e (drop 44 contents) ?s7) = Completed"
    using play_within [OF s7(1,2)] by blast
  then show ?thesis
    by (simp add: audio_plays [OF assms(1-3)])
qed

text \<open>What the loop of lines 86 to 99 leaves, exactly: it plays chunk after chunk up to the
  first check that finds the cap exceeded, or to the end of the data.\<close>

lemma output_chunk_exact:
  "\<exists>lv. output_chunk bs s = s\<lparr>dac_level := lv, dac_writes := dac_writes s @ map dac_sample bs\<rparr>"
proof (induction bs arbitrary: s)
  case Nil
  have "s = s\<lparr>dac_level := dac_level s, dac_writes := dac_writes s @ map dac_sample []\<rparr>"
    by simp
  then show ?case by (metis output_chunk.simps(1))
next
  case (Cons b bs)
  let ?s1 = "delayMicroseconds 125
          (dac_output_voltage (word_of_int (map_long (uint b) 0 255 0 VOLUME_LEVEL)) s)"
  obtain lv where "output_chunk bs ?s1 =
      ?s1\<lparr>dac_level := lv, dac_writes := dac_writes ?s1 @ map dac_sample bs\<rparr>"
    using Cons.IH by blast
  then have "output_chunk (b # bs) s =
      s\<lparr>dac_level := lv, dac_writes := dac_writes s @ map dac_sample (b # bs)\<rparr>"
    by (simp add: delayMicroseconds_def dac_output_voltage_def dac_sample_def)
  then show ?case by blast
qed

lemma play_loop_exact:
  assumes "reproduciendo s"
  shows "\<exists>j lv. j \<le> nchunks rest \<and> (rest \<noteq> [] \<longrightarrow> 1 \<le> j)
     \<and> (\<forall>k. Suc k < j \<longrightarrow>
           \<not> PLAYBACK_DURATION < millis_of (clock e (clock_reads s + k)) - inicioReproduccion s)
     \<and> (j < nchunks rest \<longrightarrow>
           (\<exists>k. j = Suc k
              \<and> PLAYBACK_DURATION < millis_of (clock e (clock_reads s + k)) - inicioReproduccion s))
     \<and> play_loop e rest s =
         (if \<exists>k. j = Suc k
              \<and> PLAYBACK_DURATION < millis_of (clock e (clock_reads s + k)) - inicioReproduccion s
          then MaxDurationExceeded else Completed,
          s\<lparr>dac_level := lv,
            dac_writes := dac_writes s @ map dac_sample (take (512 * j) rest),
            clock_reads := clock_reads s + j\<rparr>)"
  using assms
proof (induction rest arbitrary: s rule: length_induct)
  case (1 rest)
  note pl = \<open>reproduciendo s\<close>
  let ?late = "\<lambda>s k. PLAYBACK_DURATION < millis_of (clock e (clock_reads s + k)) - inicioReproduccion s"
  show ?case
  proof (cases "rest = []")
    case True
    have "s = s\<lparr>dac_level := dac_level s, dac_writes := dac_writes s @ map dac_sample (take (512 * 0) rest),
            clock_reads := clock_reads s + 0\<rparr>"
      by simp
    then have "play_loop e rest s = (Completed,
        s\<lparr>dac_level := dac_level s, dac_writes := dac_writes s @ map dac_sample (take (512 * 0) rest),
            clock_reads := clock_reads s + 0\<rparr>)"
      using True by (simp add: play_loop_done)
    then show ?thesis
      using True by - (rule exI [of _ 0], rule exI [of _ "dac_level s"], simp add: nchunks_def)
  next
    case ne: False
    then have n1: "1 \<le> nchunks rest"
      by (cases rest) (simp_all add: nchunks_def)
    obtain lv where oc: "output_chunk (take 512 rest) s =
        s\<lparr>dac_level := lv, dac_writes := dac_writes s @ map dac_sample (take 512 rest)\<rparr>"
      using output_chunk_exact by blast
    let ?s2 = "s\<lparr>dac_level := lv, dac_writes := dac_writes s @ map dac_sample (take 512 rest),
                 clock_reads := Suc (clock_reads s)\<rparr>"
    show ?thesis
    proof (cases "?late s 0")
      case True
      then have "play_loop e rest s = (MaxDurationExceeded,
          s\<lparr>dac_level := lv, dac_writes := dac_writes s @ map dac_sample (take (512 * 1) rest),
            clock_reads := clock_reads s + 1\<rparr>)"
        by (simp add: play_loop_step [OF ne pl] oc)
      then show ?thesis
        using True n1 by - (rule exI [of _ 1], rule exI [of _ lv], simp)
    next
      case False
      then have unfold: "play_loop e rest s = play_loop e (drop 512 rest) ?s2"
        by (simp add: play_loop_step [OF ne pl] oc)
      have shorter: "length (drop 512 rest) < length rest"
        using ne by simp
      have pl2: "reproduciendo ?s2"
        using pl by simp
      obtain j lv' where j: "j \<le> nchunks (drop 512 rest)" "drop 512 rest \<noteq> [] \<longrightarrow> 1 \<le> j"
          "\<forall>k. Suc k < j \<longrightarrow> \<not> ?late ?s2 k"
          "j < nchunks (drop 512 rest) \<longrightarrow> (\<exists>k. j = Suc k \<and> ?late ?s2 k)"
          "play_loop e (drop 512 rest) ?s2 =
             (if \<exists>k. j = Suc k \<and> ?late ?s2 k then MaxDurationExceeded else Completed,
              ?s2\<lparr>dac_level := lv',
                dac_writes := dac_writes ?s2 @ map dac_sample (take (512 * j) (drop 512 rest)),
                clock_reads := clock_reads ?s2 + j\<rparr>)"
        using "1.IH" [rule_format, OF shorter pl2] by blast
      have shift: "?late ?s2 k = ?late s (Suc k)" for k
        by simp
      have a: "Suc j \<le> nchunks rest"
        using j(1) n1 by (simp add: nchunks_drop)
      have b: "\<forall>k. Suc k < Suc j \<longrightarrow> \<not> ?late s k"
      proof (intro allI impI)
        fix k assume "Suc k < Suc j"
        show "\<not> ?late s k"
        proof (cases k)
          case 0
          then show ?thesis using False by simp
        next
          case (Suc k')
          then have "Suc k' < j" using \<open>Suc k < Suc j\<close> by simp
          then show ?thesis using j(3) Suc unfolding shift by blast
        qed
      qed
      have c: "Suc j < nchunks rest \<longrightarrow> (\<exists>k. Suc j = Suc k \<and> ?late s k)"
      proof
        assume "Suc j < nchunks rest"
        then have "j < nchunks (drop 512 rest)" by (simp add: nchunks_drop)
        then obtain k where "j = Suc k" "?late ?s2 k" using j(4) by blast
        then show "\<exists>k. Suc j = Suc k \<and> ?late s k" unfolding shift by blast
      qed
      have lab: "(\<exists>k. Suc j = Suc k \<and> ?late s k) = (\<exists>k. j = Suc k \<and> ?late ?s2 k)"
      proof (cases j)
        case 0
        then show ?thesis using False by simp
      next
        case (Suc j')
        then show ?thesis unfolding shift by simp
      qed
      have st: "?s2\<lparr>dac_level := lv',
                dac_writes := dac_writes ?s2 @ map dac_sample (take (512 * j) (drop 512 rest)),
                clock_reads := clock_reads ?s2 + j\<rparr>
            = s\<lparr>dac_level := lv',
                dac_writes := dac_writes s @ map dac_sample (take (512 * Suc j) rest),
                clock_reads := clock_reads s + Suc j\<rparr>"
        by (simp add: take_add)
      have "play_loop e rest s =
         (if \<exists>k. Suc j = Suc k \<and> ?late s k then MaxDurationExceeded else Completed,
          s\<lparr>dac_level := lv',
            dac_writes := dac_writes s @ map dac_sample (take (512 * Suc j) rest),
            clock_reads := clock_reads s + Suc j\<rparr>)"
        unfolding unfold j(5) st lab ..
      then show ?thesis
        using a b c by - (rule exI [of _ "Suc j"], rule exI [of _ lv'], simp)
    qed
  qed
qed

lemma audio_exact:
  assumes "sd_ok e (sd_begins s)" "calm_wav e = Some contents" "magic_ok e contents"
  shows "\<exists>j. j \<le> nchunks (drop 44 contents) \<and> (drop 44 contents \<noteq> [] \<longrightarrow> 1 \<le> j)
     \<and> (\<forall>k. 1 \<le> k \<and> k < j \<longrightarrow> \<not> cap_exceeded e (clock_reads s) k)
     \<and> (j < nchunks (drop 44 contents) \<longrightarrow> cap_exceeded e (clock_reads s) j)
     \<and> reproducirAudio e s =
         (if 1 \<le> j \<and> cap_exceeded e (clock_reads s) j then MaxDurationExceeded else Completed,
          after_playing e s j (drop 44 contents))"
proof -
  let ?D = "drop 44 contents"
  let ?c = "clock_reads s"
  let ?s7 = "play_start e s"
  have s7: "reproduciendo ?s7"
    by (simp add: play_start_def)
  have late: "(PLAYBACK_DURATION < millis_of (clock e (clock_reads ?s7 + k)) - inicioReproduccion ?s7)
      = cap_exceeded e ?c (Suc k)" for k
    by (simp add: play_start_def cap_exceeded_def)
  obtain j lv where j: "j \<le> nchunks ?D" "?D \<noteq> [] \<longrightarrow> 1 \<le> j"
      "\<forall>k. Suc k < j \<longrightarrow> \<not> cap_exceeded e ?c (Suc k)"
      "j < nchunks ?D \<longrightarrow> (\<exists>k. j = Suc k \<and> cap_exceeded e ?c (Suc k))"
      "play_loop e ?D ?s7 =
         (if \<exists>k. j = Suc k \<and> cap_exceeded e ?c (Suc k) then MaxDurationExceeded else Completed,
          ?s7\<lparr>dac_level := lv, dac_writes := dac_writes ?s7 @ map dac_sample (take (512 * j) ?D),
            clock_reads := clock_reads ?s7 + j\<rparr>)"
    using play_loop_exact [OF s7, of ?D e] unfolding late by blast
  have lab: "(\<exists>k. j = Suc k \<and> cap_exceeded e ?c (Suc k)) = (1 \<le> j \<and> cap_exceeded e ?c j)"
    by (cases j) simp_all
  have a: "\<forall>k. 1 \<le> k \<and> k < j \<longrightarrow> \<not> cap_exceeded e ?c k"
  proof (intro allI impI)
    fix k assume k: "1 \<le> k \<and> k < j"
    then obtain k' where "k = Suc k'" by (cases k) simp_all
    then show "\<not> cap_exceeded e ?c k" using j(3) k by blast
  qed
  have b: "j < nchunks ?D \<longrightarrow> cap_exceeded e ?c j"
    using j(4) by blast
  have "reproducirAudio e s =
         (if 1 \<le> j \<and> cap_exceeded e ?c j then MaxDurationExceeded else Completed,
          after_playing e s j ?D)"
    unfolding audio_plays [OF assms] j(5) lab
    by (simp add: play_start_def after_playing_def)
  then show ?thesis
    using j(1,2) a b by blast
qed

lemma magic_RIFF:
  assumes "take 4 contents = RIFF"
  shows "magic_ok e contents"
proof -
  have "length (take 4 contents) = 4"
    unfolding assms by (simp add: RIFF_def)
  then have "4 \<le> length contents"
    by simp
  then show ?thesis
    using assms by (simp add: magic_take)
qed

lemma audio_capped_state:
  assumes "sd_ok e (sd_begins s)" "calm_wav e = Some contents" "magic_ok e contents"
    and "n = nchunks (drop 44 contents)"
    and "\<forall>k<n. clock e (clock_reads s + k) \<le> clock e (clock_reads s + Suc k)
              \<and> clock e (clock_reads s + Suc k) - clock e (clock_reads s + k) < 2 ^ 32 - 30000"
    and "clock e (clock_reads s) + 30000 < clock e (clock_reads s + n)"
  shows "\<exists>j. 1 \<le> j \<and> j \<le> n
            \<and> reproducirAudio e s = (MaxDurationExceeded, after_playing e s j (drop 44 contents))
            \<and> clock e (clock_reads s) + 30000 < clock e (clock_reads s + j)
            \<and> clock e (clock_reads s + j - 1) \<le> clock e (clock_reads s) + 30000"
proof -
  obtain j where j: "1 \<le> j" "j \<le> n" "fst (reproducirAudio e s) = MaxDurationExceeded"
      "clock_reads (snd (reproducirAudio e s)) = clock_reads s + Suc j"
      "clock e (clock_reads s) + 30000 < clock e (clock_reads s + j)"
      "clock e (clock_reads s + j - 1) \<le> clock e (clock_reads s) + 30000"
    using audio_capped [OF assms] by blast
  obtain i where i: "snd (reproducirAudio e s) = after_playing e s i (drop 44 contents)"
    using audio_exact [OF assms(1-3)] by (metis snd_conv)
  have "clock_reads (snd (reproducirAudio e s)) = clock_reads s + Suc i"
    unfolding i by (simp add: after_playing_def)
  then have "i = j"
    using j(4) by simp
  then have "reproducirAudio e s = (MaxDurationExceeded, after_playing e s j (drop 44 contents))"
    using i j(3) by (metis prod.collapse)
  then show ?thesis
    using j by blast
qed

lemma audio_completes_state:
  assumes "sd_ok e (sd_begins s)" "calm_wav e = Some contents" "magic_ok e contents"
    and "\<forall>k\<le>nchunks (drop 44 contents). clock e (clock_reads s) \<le> clock e (clock_reads s + k)
              \<and> clock e (clock_reads s + k) \<le> clock e (clock_reads s) + 30000"
  shows "reproducirAudio e s =
           (Completed, after_playing e s (nchunks (drop 44 contents)) (drop 44 contents))"
proof -
  let ?n = "nchunks (drop 44 contents)"
  have never: "\<not> cap_exceeded e (clock_reads s) k" if "k \<le> ?n" for k
  proof -
    have "clock e (clock_reads s) \<le> clock e (clock_reads s + k)"
        "clock e (clock_reads s + k) \<le> clock e (clock_reads s) + 30000"
      using assms(4) that by blast+
    then show ?thesis
      unfolding cap_exceeded_def by (subst elapsed_cmp) simp_all
  qed
  obtain j where j: "j \<le> ?n" "j < ?n \<longrightarrow> cap_exceeded e (clock_reads s) j"
      "reproducirAudio e s =
         (if 1 \<le> j \<and> cap_exceeded e (clock_reads s) j then MaxDurationExceeded else Completed,
          after_playing e s j (drop 44 contents))"
    using audio_exact [OF assms(1-3)] by blast
  have "j = ?n"
    using j(1,2) never [of j] by (cases "j < ?n") simp_all
  then show ?thesis
    using j(3) never [of j] by simp
qed

lemma length_wav_header [simp]: "length wav_header = 44"
  by (simp add: wav_header_def RIFF_def)

lemma magic_wav_header: "magic_ok e (wav_header @ data)"
  by (simp add: magic_take wav_header_def RIFF_def)

lemma drop_wav_header: "drop 44 (wav_header @ data) = data"
  by simp

lemma long_wav_capped: "fst (reproducirAudio long_wav (boot 0)) = MaxDurationExceeded"
proof -
  have a: "sd_ok long_wav (sd_begins (boot 0))"
       "calm_wav long_wav = Some (wav_header @ replicate 245760 128)"
    by (simp_all add: long_wav_def)
  have n: "480 = nchunks (drop 44 (wav_header @ replicate 245760 128))"
    by (simp only: drop_wav_header) (simp add: nchunks_def)
  show ?thesis
    using audio_capped [OF a magic_wav_header n]
    by (simp add: long_wav_def boot_def)
qed

lemma short_wav_completes: "fst (reproducirAudio short_wav (boot 0)) = Completed"
proof -
  have a: "sd_ok short_wav (sd_begins (boot 0))"
       "calm_wav short_wav = Some (wav_header @ replicate 1024 128)"
    by (simp_all add: short_wav_def)
  show ?thesis
    by (rule audio_completes [OF a magic_wav_header]) (simp add: nchunks_def short_wav_def boot_def)
qed

lemma dac_sample_128: "dac_sample 128 = 90"
  by (simp add: dac_sample_def map_long_def c_div_def VOLUME_LEVEL_def)

lemma cap_wav_state:
  "reproducirAudio cap_wav (boot 0) =
     (MaxDurationExceeded, after_playing cap_wav (boot 0) 469 (replicate 240128 128))"
proof -
  have a: "sd_ok cap_wav (sd_begins (boot 0))"
       "calm_wav cap_wav = Some (wav_header @ replicate 240128 128)"
    by (simp_all add: cap_wav_def)
  have n: "469 = nchunks (drop 44 (wav_header @ replicate 240128 128))"
    by (simp only: drop_wav_header) (simp add: nchunks_def)
  have c: "clock cap_wav k = 5000 + 64 * k" for k
    by (simp add: cap_wav_def)
  have r: "clock_reads (boot 0) = 0"
    by (simp add: boot_def)
  have h: "\<forall>k<469. clock cap_wav (clock_reads (boot 0) + k) \<le> clock cap_wav (clock_reads (boot 0) + Suc k)
              \<and> clock cap_wav (clock_reads (boot 0) + Suc k) - clock cap_wav (clock_reads (boot 0) + k) < 2 ^ 32 - 30000"
     "clock cap_wav (clock_reads (boot 0)) + 30000 < clock cap_wav (clock_reads (boot 0) + 469)"
    by (simp_all add: c r)
  obtain j where j: "j \<le> 469" "reproducirAudio cap_wav (boot 0) =
        (MaxDurationExceeded, after_playing cap_wav (boot 0) j (drop 44 (wav_header @ replicate 240128 128)))"
      "35000 < 5000 + 64 * j"
    using audio_capped_state [OF a magic_wav_header n h] unfolding c r by auto
  have "j = 469"
    using j(1,3) by arith
  then show ?thesis
    using j(2) by (simp only: drop_wav_header)
qed

lemma end_wav_state:
  "reproducirAudio end_wav (boot 0) =
     (Completed, after_playing end_wav (boot 0) 469 (replicate 240128 128))"
proof -
  have a: "sd_ok end_wav (sd_begins (boot 0))"
       "calm_wav end_wav = Some (wav_header @ replicate 240128 128)"
    by (simp_all add: end_wav_def)
  have n: "nchunks (replicate 240128 (128 :: u8)) = 469"
    by (simp add: nchunks_def)
  have "reproducirAudio end_wav (boot 0) =
     (Completed, after_playing end_wav (boot 0) (nchunks (drop 44 (wav_header @ replicate 240128 128)))
        (drop 44 (wav_header @ replicate 240128 128)))"
    by (rule audio_completes_state [OF a magic_wav_header])
       (simp add: n end_wav_def boot_def)
  then show ?thesis
    by (simp only: drop_wav_header n)
qed

text \<open>
  C3. The claim: a file whose data takes longer than 30000 ms to play is stopped at or just
  behind the cap, by at most the time of one chunk, and the call returns the result
  \<open>MaxDurationExceeded\<close>. The function is \<^verbatim>\<open>void\<close>; what follows is the claim without the
  result. A call finds the card and a file starting with "RIFF" whose data makes \<open>n\<close>
  chunks. The times at which \<^verbatim>\<open>millis()\<close> is read are \<open>clock e (c + k)\<close>, with \<open>c\<close> the number
  of readings before the call: \<open>k = 0\<close> is the start (line 80), \<open>k = j\<close> the check behind
  chunk \<open>j\<close> (line 93). The clock does not go backwards, no chunk takes \<open>2^32 - 30000\<close> ms
  (49 days) or more, and the check behind the last chunk would come more than 30000 ms
  after the start: the data takes longer than 30000 ms to play. Then the call leaves the
  state of a call that has played \<open>j\<close> chunks, for a \<open>j\<close> whose check comes more than 30000
  ms after the start while the check before it (the start, for \<open>j = 1\<close>) does not: the
  first \<open>j\<close> chunks have been written to the DAC, then 0, and nothing of the rest of the
  file; and the time by which the call overshoots the cap is at most the time chunk \<open>j\<close>
  took.
\<close>

theorem playback_cap:
  assumes "sd_ok e (sd_begins s)" "calm_wav e = Some contents" "take 4 contents = RIFF"
    and "n = nchunks (drop 44 contents)"
    and "\<forall>k<n. clock e (clock_reads s + k) \<le> clock e (clock_reads s + Suc k)
              \<and> clock e (clock_reads s + Suc k) - clock e (clock_reads s + k) < 2 ^ 32 - 30000"
    and "clock e (clock_reads s) + 30000 < clock e (clock_reads s + n)"
  shows "\<exists>j. 1 \<le> j \<and> j \<le> n
            \<and> snd (reproducirAudio e s) = after_playing e s j (drop 44 contents)
            \<and> clock e (clock_reads s) + 30000 < clock e (clock_reads s + j)
            \<and> clock e (clock_reads s + j - 1) \<le> clock e (clock_reads s) + 30000
            \<and> clock e (clock_reads s + j) - (clock e (clock_reads s) + 30000)
                 \<le> clock e (clock_reads s + j) - clock e (clock_reads s + j - 1)"
proof -
  obtain j where j: "1 \<le> j" "j \<le> n"
      "reproducirAudio e s = (MaxDurationExceeded, after_playing e s j (drop 44 contents))"
      "clock e (clock_reads s) + 30000 < clock e (clock_reads s + j)"
      "clock e (clock_reads s + j - 1) \<le> clock e (clock_reads s) + 30000"
    using audio_capped_state [OF assms(1,2) magic_RIFF [OF assms(3)] assms(4-6)] by blast
  have "clock e (clock_reads s + j) - (clock e (clock_reads s) + 30000)
                 \<le> clock e (clock_reads s + j) - clock e (clock_reads s + j - 1)"
    using j(5) by simp
  moreover have "snd (reproducirAudio e s) = after_playing e s j (drop 44 contents)"
    by (simp add: j(3))
  ultimately show ?thesis
    using j(1,2,4,5) by blast
qed

text \<open>The file of 480 chunks at 64 ms a chunk: the check behind chunk 469 finds 30016 ms
  passed. The call has written 240128 of the 245760 samples to the DAC (128 becomes level
  90), then 0, and has read \<^verbatim>\<open>millis()\<close> 470 times.\<close>

theorem playback_cap_witness:
  "snd (reproducirAudio long_wav (boot 0)) = after_playing long_wav (boot 0) 469 (replicate 245760 128)
   \<and> dac_writes (snd (reproducirAudio long_wav (boot 0))) = replicate 240128 90 @ [0]
   \<and> clock_reads (snd (reproducirAudio long_wav (boot 0))) = 470"
proof -
  have a: "sd_ok long_wav (sd_begins (boot 0))"
       "calm_wav long_wav = Some (wav_header @ replicate 245760 128)"
       "take 4 (wav_header @ replicate 245760 128) = RIFF"
    by (simp_all add: long_wav_def) (simp add: wav_header_def RIFF_def)
  have n: "480 = nchunks (drop 44 (wav_header @ replicate 245760 128))"
    by (simp only: drop_wav_header) (simp add: nchunks_def)
  have c: "clock long_wav k = 5000 + 64 * k" for k
    by (simp add: long_wav_def)
  have r: "clock_reads (boot 0) = 0"
    by (simp add: boot_def)
  have h: "\<forall>k<480. clock long_wav (clock_reads (boot 0) + k) \<le> clock long_wav (clock_reads (boot 0) + Suc k)
              \<and> clock long_wav (clock_reads (boot 0) + Suc k) - clock long_wav (clock_reads (boot 0) + k) < 2 ^ 32 - 30000"
     "clock long_wav (clock_reads (boot 0)) + 30000 < clock long_wav (clock_reads (boot 0) + 480)"
    by (simp_all add: c r)
  obtain j where j: "snd (reproducirAudio long_wav (boot 0))
        = after_playing long_wav (boot 0) j (drop 44 (wav_header @ replicate 245760 128))"
      "35000 < 5000 + 64 * j" "5000 + 64 * (j - 1) \<le> 35000"
    using playback_cap [OF a n h] unfolding c r by auto
  have "j = 469"
    using j(2,3) by arith
  then have st: "snd (reproducirAudio long_wav (boot 0))
        = after_playing long_wav (boot 0) 469 (replicate 245760 128)"
    using j(1) by (simp only: drop_wav_header)
  show ?thesis
    unfolding st by (simp add: after_playing_def boot_def dac_sample_128)
qed

text \<open>The file of 469 chunks. At 64 ms a chunk the check behind the last chunk finds 30016
  ms passed and the loop is left by the \<^verbatim>\<open>break\<close> of line 94; at 63 ms a chunk no check
  finds the cap exceeded and the loop is left at the end of the file. \<open>MaxDurationExceeded\<close>
  and \<open>Completed\<close> are the model's names for these two ways out. The two calls leave the
  same state, log included: nothing the function hands to its caller tells them apart.\<close>

theorem playback_result_counterexample:
  "fst (reproducirAudio cap_wav (boot 0)) = MaxDurationExceeded
   \<and> fst (reproducirAudio end_wav (boot 0)) = Completed
   \<and> snd (reproducirAudio cap_wav (boot 0)) = snd (reproducirAudio end_wav (boot 0))"
  by (simp add: cap_wav_state end_wav_state) (simp add: after_playing_def cap_wav_def end_wav_def boot_def)

text \<open>A call that finds the card and a file of at least four bytes, the first four not
  "RIFF": the call leaves by the \<^verbatim>\<open>return\<close> of line 73 (\<open>InvalidFormat\<close>). It has changed
  nothing but the count of \<^verbatim>\<open>SD.begin\<close> calls and the log, to which it has added the line of
  line 71: as many handles are open as before the call (the one opened in line 59 is
  closed in line 72), and nothing has been written to the DAC, whose level is as before.\<close>

lemma format_rejection:
  assumes "sd_ok e (sd_begins s)" "calm_wav e = Some contents"
    and "4 \<le> length contents" "take 4 contents \<noteq> RIFF"
  shows "reproducirAudio e s =
           (AssetError InvalidFormat,
            s\<lparr>sd_begins := Suc (sd_begins s), serial := serial s @ [ErrorNoWav]\<rparr>)
       \<and> handles (snd (reproducirAudio e s)) = handles s
       \<and> dac_writes (snd (reproducirAudio e s)) = dac_writes s
       \<and> dac_level (snd (reproducirAudio e s)) = dac_level s"
proof -
  have "\<not> magic_ok e contents"
    using assms(3,4) by (simp add: magic_take)
  then show ?thesis
    by (simp add: audio_bad_magic [OF assms(1,2)])
qed

lemma format_rejection_bad_wav:
  "fst (reproducirAudio bad_wav (boot 0)) = AssetError InvalidFormat
   \<and> dac_writes (snd (reproducirAudio bad_wav (boot 0))) = []
   \<and> handles (snd (reproducirAudio bad_wav (boot 0))) = 0"
proof -
  have a: "sd_ok bad_wav (sd_begins (boot 0))"
       "calm_wav bad_wav = Some (map byte_of ''RIFX'' @ replicate 1064 128)"
       "4 \<le> length (map byte_of ''RIFX'' @ replicate 1064 128)"
       "take 4 (map byte_of ''RIFX'' @ replicate 1064 128) \<noteq> RIFF"
    by (simp_all add: bad_wav_def RIFF_def byte_of_def)
  show ?thesis
    using format_rejection [OF a] by (simp add: boot_def)
qed

text \<open>
  C4. The claim: every file whose first four bytes are not "RIFF" is refused with
  \<open>InvalidFormat\<close>. Line 67 does not look at how many bytes \<^verbatim>\<open>archivo.read\<close> has read, so for
  a file of fewer than four bytes line 70 compares bytes the array \<^verbatim>\<open>header\<close> held before.
  The file of the two bytes "RI", read into an array that held "F" at offsets 2 and 3, is
  taken for a WAV file: the call prints the lines of lines 76 and 104 and not the line of
  line 71, enables the DAC, reads the clock, writes 0 to the DAC and leaves by the end of
  the function.
\<close>

theorem short_file_accepted:
  "take 4 (map byte_of ''RI'') \<noteq> RIFF
   \<and> reproducirAudio stub_wav (boot 0) =
      (Completed,
       \<lparr>umbralRuido = 0, reproduciendo = False, ultimoRuido = 0, inicioReproduccion = 5000,
        mic_reads = 0, clock_reads = 1, sd_begins = 1, handles = 0,
        dac_enabled = True, dac_level = 0, dac_writes = [0],
        serial = [ReproduciendoAudio, ReproduccionFinalizada]\<rparr>)"
proof -
  have a: "sd_ok stub_wav (sd_begins (boot 0))" "calm_wav stub_wav = Some (map byte_of ''RI'')"
    by (simp_all add: stub_wav_def)
  have m: "magic_ok stub_wav (map byte_of ''RI'')"
    by (simp add: magic_ok_def read_header_def stub_wav_def)
  have "reproducirAudio stub_wav (boot 0) =
      (Completed, after_playing stub_wav (boot 0) 0 [])"
    using audio_completes_state [OF a m] by (simp add: nchunks_def)
  then show ?thesis
    by (simp add: after_playing_def boot_def stub_wav_def millis_of_def RIFF_def)
qed

theorem short_file_accepted_witness:
  "fst (reproducirAudio stub_wav (boot 0)) \<noteq> AssetError InvalidFormat
   \<and> ErrorNoWav \<notin> set (serial (snd (reproducirAudio stub_wav (boot 0))))"
  using short_file_accepted by simp

text \<open>
  C10. A call that finds the card and a file whose first four bytes are "RIFF" plays it:
  it leaves the state of a call that has played \<open>j\<close> chunks of the bytes from offset 44 on,
  where \<open>j\<close> is the first chunk whose check finds the cap exceeded, or the last chunk when
  none does (at least one chunk when there is data; \<open>MaxDurationExceeded\<close> when the check
  behind chunk \<open>j\<close> finds the cap exceeded, \<open>Completed\<close> otherwise). Bytes 4 to 43 play no
  part: the call does exactly the same for any other file that starts with "RIFF" and has
  the same bytes from offset 44 on.
\<close>

theorem magic_only:
  assumes "sd_ok e (sd_begins s)" "calm_wav e = Some contents" "take 4 contents = RIFF"
  shows "(\<exists>j. j \<le> nchunks (drop 44 contents) \<and> (drop 44 contents \<noteq> [] \<longrightarrow> 1 \<le> j)
            \<and> (\<forall>k. 1 \<le> k \<and> k < j \<longrightarrow> \<not> cap_exceeded e (clock_reads s) k)
            \<and> (j < nchunks (drop 44 contents) \<longrightarrow> cap_exceeded e (clock_reads s) j)
            \<and> reproducirAudio e s =
                (if 1 \<le> j \<and> cap_exceeded e (clock_reads s) j then MaxDurationExceeded else Completed,
                 after_playing e s j (drop 44 contents)))
       \<and> (\<forall>other. take 4 other = RIFF \<and> drop 44 other = drop 44 contents
            \<longrightarrow> reproducirAudio (e\<lparr>calm_wav := Some other\<rparr>) s = reproducirAudio e s)"
proof -
  have m: "magic_ok e contents"
    by (rule magic_RIFF [OF assms(3)])
  have "reproducirAudio (e\<lparr>calm_wav := Some other\<rparr>) s = reproducirAudio e s"
    if o: "take 4 other = RIFF" "drop 44 other = drop 44 contents" for other
  proof -
    let ?e = "e\<lparr>calm_wav := Some other\<rparr>"
    have "magic_ok ?e other"
      by (rule magic_RIFF [OF o(1)])
    moreover have "sd_ok ?e (sd_begins s)" "calm_wav ?e = Some other"
      using assms(1) by simp_all
    ultimately have "reproducirAudio ?e s =
       (fst (play_loop ?e (drop 44 other) (play_start ?e s)),
        (snd (play_loop ?e (drop 44 other) (play_start ?e s)))
          \<lparr>handles := handles s, dac_level := 0,
           dac_writes := dac_writes (snd (play_loop ?e (drop 44 other) (play_start ?e s))) @ [0],
           reproduciendo := False,
           serial := serial s @ [ReproduciendoAudio, ReproduccionFinalizada]\<rparr>)"
      by (intro audio_plays)
    moreover have "play_start ?e s = play_start e s"
      by (simp add: play_start_def)
    ultimately show ?thesis
      by (simp add: o(2) play_loop_env audio_plays [OF assms(1,2) m])
  qed
  then show ?thesis
    using audio_exact [OF assms(1,2) m] by blast
qed

theorem magic_only_witness:
  "reproducirAudio (short_wav\<lparr>calm_wav := Some (RIFF @ replicate 40 255 @ replicate 1024 128)\<rparr>) (boot 0)
     = reproducirAudio short_wav (boot 0)
   \<and> reproducirAudio short_wav (boot 0) =
       (Completed, after_playing short_wav (boot 0) 2 (replicate 1024 128))
   \<and> dac_writes (snd (reproducirAudio short_wav (boot 0))) = replicate 1024 90 @ [0]"
proof -
  have a: "sd_ok short_wav (sd_begins (boot 0))"
       "calm_wav short_wav = Some (wav_header @ replicate 1024 128)"
       "take 4 (wav_header @ replicate 1024 128) = RIFF"
    by (simp_all add: short_wav_def) (simp add: wav_header_def RIFF_def)
  have b: "take 4 (RIFF @ replicate 40 255 @ replicate 1024 (128 :: u8)) = RIFF"
      "drop 44 (RIFF @ replicate 40 255 @ replicate 1024 (128 :: u8)) = drop 44 (wav_header @ replicate 1024 128)"
    by (simp_all add: RIFF_def)
  have n: "nchunks (replicate 1024 (128 :: u8)) = 2"
    by (simp add: nchunks_def)
  have never: "\<not> cap_exceeded short_wav (clock_reads (boot 0)) k" if "k \<le> 2" for k
  proof -
    have "k = 0 \<or> k = 1 \<or> k = 2" using that by arith
    then show ?thesis
      by (auto simp: cap_exceeded_def short_wav_def boot_def millis_of_def PLAYBACK_DURATION_def)
  qed
  from magic_only [OF a] obtain j where j: "j \<le> 2" "1 \<le> j"
      "j < 2 \<longrightarrow> cap_exceeded short_wav (clock_reads (boot 0)) j"
      "reproducirAudio short_wav (boot 0) =
         (if 1 \<le> j \<and> cap_exceeded short_wav (clock_reads (boot 0)) j
          then MaxDurationExceeded else Completed,
          after_playing short_wav (boot 0) j (replicate 1024 128))"
    unfolding drop_wav_header n by auto
  have "j = 2"
    using j(1,2,3) never [of j] by arith
  then have st: "reproducirAudio short_wav (boot 0) =
       (Completed, after_playing short_wav (boot 0) 2 (replicate 1024 128))"
    using j(4) never [of 2] by simp
  have "reproducirAudio (short_wav\<lparr>calm_wav := Some (RIFF @ replicate 40 255 @ replicate 1024 128)\<rparr>) (boot 0)
     = reproducirAudio short_wav (boot 0)"
    using magic_only [OF a] b by blast
  then show ?thesis
    unfolding st by (simp add: after_playing_def boot_def dac_sample_128)
qed

text \<open>
  C5. The claim: every call sets the DAC to 0, closes the file and leaves
  \<^verbatim>\<open>reproduciendo\<close> false, on every way out. The code does so where it has played (lines 101
  to 103). The three ways out for errors (lines 56, 62, 73) come before the DAC is touched
  and before \<^verbatim>\<open>reproduciendo\<close> is set: every call leaves as many handles open as it found;
  a call that played leaves the DAC at 0, written last, and \<^verbatim>\<open>reproduciendo\<close> false; a call
  that left with an error has written nothing to the DAC and leaves its level and
  \<^verbatim>\<open>reproduciendo\<close> as it found them. So a call that finds the DAC at 0 and
  \<^verbatim>\<open>reproduciendo\<close> false leaves them so on every way out.
\<close>

theorem play_cleanup:
  "handles (snd (reproducirAudio e s)) = handles s
   \<and> (fst (reproducirAudio e s) \<in> {Completed, MaxDurationExceeded} \<longrightarrow>
        dac_level (snd (reproducirAudio e s)) = 0
        \<and> dac_writes (snd (reproducirAudio e s)) \<noteq> []
        \<and> last (dac_writes (snd (reproducirAudio e s))) = 0
        \<and> \<not> reproduciendo (snd (reproducirAudio e s)))
   \<and> ((\<exists>k. fst (reproducirAudio e s) = AssetError k) \<longrightarrow>
        dac_level (snd (reproducirAudio e s)) = dac_level s
        \<and> dac_writes (snd (reproducirAudio e s)) = dac_writes s
        \<and> reproduciendo (snd (reproducirAudio e s)) = reproduciendo s)
   \<and> (dac_level s = 0 \<and> \<not> reproduciendo s \<longrightarrow>
        dac_level (snd (reproducirAudio e s)) = 0 \<and> \<not> reproduciendo (snd (reproducirAudio e s)))"
  by (cases e s rule: audio_paths) auto

theorem play_cleanup_witness:
  "handles (snd (reproducirAudio short_wav (boot 0))) = 0
   \<and> dac_level (snd (reproducirAudio short_wav (boot 0))) = 0
   \<and> \<not> reproduciendo (snd (reproducirAudio short_wav (boot 0)))
   \<and> dac_writes (snd (reproducirAudio card_pulled (boot 0\<lparr>sd_begins := 1\<rparr>))) = []
   \<and> dac_level (snd (reproducirAudio card_pulled (boot 0\<lparr>sd_begins := 1\<rparr>))) = 0"
proof -
  have "fst (reproducirAudio card_pulled (boot 0\<lparr>sd_begins := 1\<rparr>)) = AssetError StorageUnavailable"
    by (simp add: audio_no_card card_pulled_def boot_def)
  then show ?thesis
    using short_wav_completes play_cleanup [of short_wav "boot 0"]
      play_cleanup [of card_pulled "boot 0\<lparr>sd_begins := 1\<rparr>"]
    by (simp add: boot_def)
qed

text \<open>
  C8. The claim: a playback stopped by the 30000 ms cap prints a line other than the one
  a playback that reaches the end of the file prints. The file of 480 chunks is stopped
  by the cap, the file of 2 chunks is played to its end, and both calls print the same
  two lines, the last being the line of line 104.
\<close>

theorem same_final_line:
  "fst (reproducirAudio long_wav (boot 0)) = MaxDurationExceeded
   \<and> fst (reproducirAudio short_wav (boot 0)) = Completed
   \<and> serial (snd (reproducirAudio long_wav (boot 0))) = [ReproduciendoAudio, ReproduccionFinalizada]
   \<and> serial (snd (reproducirAudio short_wav (boot 0))) = [ReproduciendoAudio, ReproduccionFinalizada]"
proof -
  have l: "serial (snd (reproducirAudio long_wav (boot 0))) = [ReproduciendoAudio, ReproduccionFinalizada]"
    using long_wav_capped by (cases long_wav "boot 0" rule: audio_paths) (auto simp: boot_def)
  have s: "serial (snd (reproducirAudio short_wav (boot 0))) = [ReproduciendoAudio, ReproduccionFinalizada]"
    using short_wav_completes by (cases short_wav "boot 0" rule: audio_paths) (auto simp: boot_def)
  show ?thesis
    using l s long_wav_capped short_wav_completes by simp
qed

theorem same_final_line_witness:
  "serial (snd (reproducirAudio long_wav (boot 0))) = serial (snd (reproducirAudio short_wav (boot 0)))
   \<and> fst (reproducirAudio long_wav (boot 0)) \<noteq> fst (reproducirAudio short_wav (boot 0))"
  using same_final_line by simp

section \<open>Setup and loop\<close>

lemma baseline_serial [simp]: "baseline e (s\<lparr>serial := x\<rparr>) = baseline e s"
  by (simp add: baseline_def)

lemma calibrarUmbral_state:
  "calibrarUmbral e s =
     s\<lparr>mic_reads := mic_reads s + 100,
       umbralRuido := (5 * (sum_list (baseline e s) div 100)) div 2,
       serial := serial s @ [CalibrandoUmbral,
                  UmbralCalibrado ((5 * (sum_list (baseline e s) div 100)) div 2)]\<rparr>"
proof -
  have u: "c_trunc (of_int (c_div (sum_list (baseline e s)) 100) * THRESHOLD_MULTIPLIER)
             = (5 * (sum_list (baseline e s) div 100)) div 2"
    using umbral_closed [of e s] by (simp only: umbral_calibrarUmbral)
  show ?thesis
    by (simp add: calibrarUmbral_def calib_loop_sum println_def delay_def Let_def
          sum_list_baseline [symmetric] u del: sum.lessThan_Suc)
qed

lemma setup_state:
  "setup_sketch e s =
     (if sd_ok e (sd_begins s) then
        Ready (s\<lparr>dac_enabled := True, sd_begins := Suc (sd_begins s),
                mic_reads := mic_reads s + 100,
                umbralRuido := (5 * (sum_list (baseline e s) div 100)) div 2,
                serial := serial s @ [SDMontada, CalibrandoUmbral,
                  UmbralCalibrado ((5 * (sum_list (baseline e s) div 100)) div 2), SistemaListo]\<rparr>)
      else Halted (s\<lparr>dac_enabled := True, sd_begins := Suc (sd_begins s),
                     serial := serial s @ [FalloMontarSD]\<rparr>))"
  by (simp add: setup_sketch_def SD_begin_def dac_output_enable_def calibrarUmbral_state
        println_def baseline_def)

lemma loop_idle:
  assumes "\<not> reproduciendo s"
  shows "\<not> reproduciendo (loop e s) \<and> set (serial (loop e s)) \<subseteq> set (serial s) \<union>
      {RuidoDetectado, ErrorSD, ErrorNoCalm, ErrorNoWav, ReproduciendoAudio, ReproduccionFinalizada}"
proof -
  let ?s' = "println RuidoDetectado (s\<lparr>mic_reads := Suc (mic_reads s), clock_reads := Suc (clock_reads s)\<rparr>)"
  have idle: "\<not> reproduciendo ?s'"
    using assms by (simp add: println_def)
  have "\<not> reproduciendo (snd (reproducirAudio e ?s')) \<and> set (serial (snd (reproducirAudio e ?s')))
      \<subseteq> set (serial s) \<union> {RuidoDetectado, ErrorSD, ErrorNoCalm, ErrorNoWav, ReproduciendoAudio, ReproduccionFinalizada}"
    using idle by (cases e ?s' rule: audio_paths) (auto simp: println_def)
  then show ?thesis
    using assms
    by (auto simp: loop_def analogRead_def millis_def delay_def Let_def split_beta)
qed

text \<open>One iteration of \<^verbatim>\<open>loop\<close> that starts with \<^verbatim>\<open>reproduciendo\<close> false is one step of the
  detector: \<^verbatim>\<open>ultimoRuido\<close> becomes what \<open>observe\<close> says, the threshold stays, and the line
  of line 143 is printed, and \<^verbatim>\<open>reproducirAudio\<close> called, exactly when the event is
  \<open>Triggered\<close>.\<close>

lemma loop_observe:
  assumes "\<not> reproduciendo s"
  shows "ultimoRuido (loop e s) =
           snd (observe (umbralRuido s) (ultimoRuido s) (uint (mic e (mic_reads s)))
                  (millis_of (clock e (clock_reads s))))"
    and "umbralRuido (loop e s) = umbralRuido s"
    and "mic_reads (loop e s) = Suc (mic_reads s)"
    and "(fst (observe (umbralRuido s) (ultimoRuido s) (uint (mic e (mic_reads s)))
                  (millis_of (clock e (clock_reads s)))) = Triggered)
          = (\<exists>rest. serial (loop e s) = serial s @ RuidoDetectado # rest)"
    and "fst (observe (umbralRuido s) (ultimoRuido s) (uint (mic e (mic_reads s)))
                  (millis_of (clock e (clock_reads s)))) = NoEvent
          \<Longrightarrow> serial (loop e s) = serial s"
proof -
  let ?s' = "println RuidoDetectado (s\<lparr>mic_reads := Suc (mic_reads s), clock_reads := Suc (clock_reads s)\<rparr>)"
  have fr: "umbralRuido (snd (reproducirAudio e ?s')) = umbralRuido s
      \<and> mic_reads (snd (reproducirAudio e ?s')) = Suc (mic_reads s)
      \<and> (\<exists>rest. serial (snd (reproducirAudio e ?s')) = serial s @ RuidoDetectado # rest)"
    by (cases e ?s' rule: audio_paths) (auto simp: println_def)
  show "ultimoRuido (loop e s) =
           snd (observe (umbralRuido s) (ultimoRuido s) (uint (mic e (mic_reads s)))
                  (millis_of (clock e (clock_reads s))))"
    using assms
    by (simp add: loop_def observe_def analogRead_def millis_def delay_def Let_def split_beta)
  show "umbralRuido (loop e s) = umbralRuido s"
    using assms fr
    by (simp add: loop_def analogRead_def millis_def delay_def Let_def split_beta)
  show "mic_reads (loop e s) = Suc (mic_reads s)"
    using assms fr
    by (simp add: loop_def analogRead_def millis_def delay_def Let_def split_beta)
  show "(fst (observe (umbralRuido s) (ultimoRuido s) (uint (mic e (mic_reads s)))
                  (millis_of (clock e (clock_reads s)))) = Triggered)
          = (\<exists>rest. serial (loop e s) = serial s @ RuidoDetectado # rest)"
    using assms fr
    by (simp add: loop_def observe_def analogRead_def millis_def delay_def Let_def split_beta)
  show "serial (loop e s) = serial s"
    if "fst (observe (umbralRuido s) (ultimoRuido s) (uint (mic e (mic_reads s)))
                  (millis_of (clock e (clock_reads s)))) = NoEvent"
    using assms that
    by (simp add: loop_def observe_def analogRead_def millis_def delay_def Let_def split_beta
          split: if_splits)
qed

lemma loops_detect:
  assumes "\<not> reproduciendo s"
  shows "ultimoRuido (loops e n s) = final (umbralRuido s) (ultimoRuido s) (run_obs e n s)
       \<and> umbralRuido (loops e n s) = umbralRuido s \<and> \<not> reproduciendo (loops e n s)"
  using assms
proof (induction n arbitrary: s)
  case 0
  then show ?case by simp
next
  case (Suc n)
  have idle: "\<not> reproduciendo (loop e s)"
    using loop_idle [OF Suc.prems] by simp
  show ?case
    using Suc.IH [OF idle] by (simp add: loop_observe(1,2) [OF Suc.prems])
qed

text \<open>The line of line 143 is printed, and \<^verbatim>\<open>reproducirAudio\<close> called, as many times as
  the detector emits \<open>Triggered\<close>.\<close>

lemma loop_trigger_count:
  assumes "\<not> reproduciendo s"
  shows "count_list (serial (loop e s)) RuidoDetectado =
           count_list (serial s) RuidoDetectado +
           triggers [observe (umbralRuido s) (ultimoRuido s) (uint (mic e (mic_reads s)))
                  (millis_of (clock e (clock_reads s)))]"
proof -
  let ?s' = "println RuidoDetectado (s\<lparr>mic_reads := Suc (mic_reads s), clock_reads := Suc (clock_reads s)\<rparr>)"
  have fr: "count_list (serial (snd (reproducirAudio e ?s'))) RuidoDetectado
              = Suc (count_list (serial s) RuidoDetectado)"
    by (cases e ?s' rule: audio_paths) (auto simp: println_def)
  show ?thesis
    using assms fr
    by (simp add: loop_def observe_def analogRead_def millis_def delay_def Let_def split_beta
          triggers_def)
qed

lemma loops_triggers:
  assumes "\<not> reproduciendo s"
  shows "count_list (serial (loops e n s)) RuidoDetectado =
           count_list (serial s) RuidoDetectado +
           triggers (detect (umbralRuido s) (ultimoRuido s) (run_obs e n s))"
  using assms
proof (induction n arbitrary: s)
  case 0
  then show ?case by (simp add: triggers_def)
next
  case (Suc n)
  have idle: "\<not> reproduciendo (loop e s)"
    using loop_idle [OF Suc.prems] by simp
  show ?case
    using Suc.IH [OF idle] loop_trigger_count [OF Suc.prems, of e]
    by (simp add: loop_observe(1,2) [OF Suc.prems] triggers_Cons Let_def triggers_Nil)
qed

lemma sum_card_pulled: "sum_list (baseline card_pulled (boot 180)) = 1000"
  by (simp add: baseline_def card_pulled_def boot_def upt_rec [of _ "numeral n" for n])

lemma setup_card_pulled: "setup_sketch card_pulled (boot 180) = Ready ready"
  by (simp add: ready_def setup_state) (simp add: boot_def card_pulled_def)

lemma ready_state: "ready =
   \<lparr>umbralRuido = 25, reproduciendo = False, ultimoRuido = 0, inicioReproduccion = 0,
    mic_reads = 100, clock_reads = 0, sd_begins = 1, handles = 0,
    dac_enabled = True, dac_level = 180, dac_writes = [],
    serial = [SDMontada, CalibrandoUmbral, UmbralCalibrado 25, SistemaListo]\<rparr>"
  by (simp add: ready_def setup_state sum_card_pulled) (simp add: boot_def card_pulled_def)

lemma ready_reachable: "reachable card_pulled (loop card_pulled (loop card_pulled ready))"
proof -
  have "reachable card_pulled ready"
    by (rule after_setup [OF setup_card_pulled])
  then show ?thesis
    by (intro after_loop)
qed

text \<open>In that room the first iteration notes the start of the noise, the second finds it
  2500 ms old and calls \<^verbatim>\<open>reproducirAudio\<close>, which finds no card and returns by line 56: the
  log ends with the lines of lines 143 and 55, the DAC is at the level it had at reset and
  has never been written.\<close>

theorem play_cleanup_counterexample:
  "loop card_pulled (loop card_pulled ready) =
   \<lparr>umbralRuido = 25, reproduciendo = False, ultimoRuido = 0, inicioReproduccion = 0,
    mic_reads = 102, clock_reads = 2, sd_begins = 2, handles = 0,
    dac_enabled = True, dac_level = 180, dac_writes = [],
    serial = [SDMontada, CalibrandoUmbral, UmbralCalibrado 25, SistemaListo, RuidoDetectado, ErrorSD]\<rparr>
   \<and> dac_level (loop card_pulled (loop card_pulled ready)) \<noteq> 0
   \<and> 0 \<notin> set (dac_writes (loop card_pulled (loop card_pulled ready)))"
  by (simp add: ready_state loop_def analogRead_def millis_def millis_of_def delay_def
        TRIGGER_DURATION_def println_def audio_no_card card_pulled_def Let_def)

text \<open>
  C9. In every state in which an iteration of \<^verbatim>\<open>loop\<close> starts, \<^verbatim>\<open>reproduciendo\<close> is false, so
  the test of line 127 fails and the iteration goes on to line 136; and the line of line
  131, which only the branch of lines 128 to 133 prints, is not in the log.
\<close>

theorem never_playing:
  assumes "reachable e s"
  shows "\<not> reproduciendo s \<and> DetenidaPorTiempo \<notin> set (serial s)"
  using assms
proof (induction rule: reachable.induct)
  case (after_setup lvl s)
  then show ?case
    by (auto simp: setup_state boot_def split: if_splits)
next
  case (after_loop s)
  then show ?case
    using loop_idle [of s e] by auto
qed

theorem never_playing_witness:
  "\<not> reproduciendo (loop card_pulled (loop card_pulled ready))
   \<and> DetenidaPorTiempo \<notin> set (serial (loop card_pulled (loop card_pulled ready)))"
  using never_playing [OF ready_reachable] .

end
